theory Spec2Isabelle
  imports Main "HOL-Library.Word" "HOL-Library.List_Lexorder" "HOL-Library.Char_ord"
begin

section \<open>Geometry of the B-tree (BTree.h, lines 52-58 and 108)\<close>

text \<open>
  The three template parameters are \<open>size_t\<close> values, modelled as 64-bit words; the
  derived constants are computed in \<open>size_t\<close> arithmetic exactly as the header writes
  them, with \<open>sizeof(int) = 4\<close> and \<open>sizeof(long) = 8\<close>.
\<close>

record config =
  KeySize :: "64 word"
  DataSize :: "64 word"
  NodeSize :: "64 word"

definition RecordSize :: "config \<Rightarrow> 64 word" where
  "RecordSize c = KeySize c + DataSize c"

definition OrderCalc :: "config \<Rightarrow> 64 word" where
  "OrderCalc c = (NodeSize c - 4 + RecordSize c + 8) div (RecordSize c + 8)"

definition Order :: "config \<Rightarrow> 64 word" where
  "Order c = (if OrderCalc c < 3 then 3 else OrderCalc c)"

definition MaxKeys :: "config \<Rightarrow> 64 word" where
  "MaxKeys c = Order c - 1"

definition MinKeys :: "config \<Rightarrow> 64 word" where
  "MinKeys c = (Order c - 1) div 2"

abbreviation NilPtr :: int where
  "NilPtr \<equiv> - 1"

text \<open>
  \<open>sizeof(Node)\<close> under \<open>#pragma pack(1)\<close>: the count, \<open>MaxKeys\<close> records and
  \<open>Order\<close> branches, without padding.
\<close>

definition ActualNodeSize :: "config \<Rightarrow> 64 word" where
  "ActualNodeSize c = 4 + MaxKeys c * RecordSize c + Order c * 8"

text \<open>\<open>static_cast<int>\<close> of a \<open>size_t\<close>: the low 32 bits, read as a signed number.\<close>

definition to_int :: "64 word \<Rightarrow> int" where
  "to_int w = sint (ucast w :: 32 word)"

text \<open>The implicit conversion of an \<open>int\<close> operand to \<open>size_t\<close>.\<close>

definition to_size_t :: "int \<Rightarrow> 64 word" where
  "to_size_t i = word_of_int i"

section \<open>C strings and the byte-buffer primitives\<close>

text \<open>
  A byte is a \<open>char\<close>. A string argument stands for the bytes a \<open>const char*\<close> points
  to; as a C string it ends at its first NUL byte (or at the end of the list).
\<close>

abbreviation NUL :: char where
  "NUL \<equiv> CHR 0x00"

definition cstr :: "string \<Rightarrow> string" where
  "cstr s = takeWhile (\<lambda>ch. ch \<noteq> NUL) s"

fun strcmp :: "string \<Rightarrow> string \<Rightarrow> int" where
  "strcmp [] [] = 0"
| "strcmp [] (b # bs) = (if b = NUL then 0 else - 1)"
| "strcmp (a # as) [] = (if a = NUL then 0 else 1)"
| "strcmp (a # as) (b # bs) =
     (if a \<noteq> b then (if (of_char a :: nat) < of_char b then - 1 else 1)
      else if a = NUL then 0 else strcmp as bs)"

definition memset0 :: "nat \<Rightarrow> string" where
  "memset0 n = replicate n NUL"

definition strncpy :: "string \<Rightarrow> string \<Rightarrow> nat \<Rightarrow> string" where
  "strncpy dest src n =
     (let s = take n (cstr src) in s @ replicate (n - length s) NUL @ drop n dest)"

definition memcpy :: "string \<Rightarrow> string \<Rightarrow> nat \<Rightarrow> string" where
  "memcpy dest src n = take n src @ drop n dest"

section \<open>Records and nodes (BTree.h, lines 61-93)\<close>

record Record =
  key :: string
  data :: string

definition Record0 :: "config \<Rightarrow> Record" where
  "Record0 c = \<lparr>key = memset0 (unat (KeySize c)), data = memset0 (unat (DataSize c))\<rparr>"

record Node =
  count :: int
  records :: "Record list"
  branches :: "int list"

definition Node0 :: "config \<Rightarrow> Node" where
  "Node0 c = \<lparr>count = 0,
              records = replicate (unat (MaxKeys c)) (Record0 c),
              branches = replicate (unat (Order c)) NilPtr\<rparr>"

section \<open>The session and its file\<close>

text \<open>
  A file is the list of its node-sized blocks, block \<open>i\<close> standing for the bytes
  \<open>[i * ActualNodeSize, (i + 1) * ActualNodeSize)\<close>; a block is kept as the \<open>Node\<close>
  value whose packed image it is. The stream \<open>file\<close> is the name of the file it is
  attached to together with its fail bit; \<open>disk\<close> is the file system.
  Node numbers, counters and file positions are unbounded integers here: the 64-bit
  range of \<open>long\<close> is not reached before the file holds \<open>2^63\<close> blocks.
\<close>

datatype BTreeMode = Read | Write

datatype error = NotWritable | DuplicateKey

record BTree =
  disk :: "string \<Rightarrow> Node list option"
  can_create :: "string \<Rightarrow> bool"
  file' :: "string option"
  fail' :: bool
  mode' :: BTreeMode
  isOpen' :: bool
  root' :: int
  numItems' :: int
  numNodes' :: int
  currentNode' :: Node

definition BTree0 ::
  "config \<Rightarrow> (string \<Rightarrow> Node list option) \<Rightarrow> (string \<Rightarrow> bool) \<Rightarrow> BTree" where
  "BTree0 c dsk cc = \<lparr>disk = dsk, can_create = cc, file' = None, fail' = False, mode' = Read, isOpen' = False,
                   root' = NilPtr, numItems' = 0, numNodes' = 0, currentNode' = Node0 c\<rparr>"

text \<open>The block of all-zero bytes that fills a gap left by a write beyond the end.\<close>

definition zero_block :: "config \<Rightarrow> Node" where
  "zero_block c = \<lparr>count = 0,
                   records = replicate (unat (MaxKeys c)) (Record0 c),
                   branches = replicate (unat (Order c)) 0\<rparr>"

definition file_length :: "config \<Rightarrow> Node list \<Rightarrow> int" where
  "file_length c f = int (length f) * uint (ActualNodeSize c)"

definition file_read :: "config \<Rightarrow> Node list \<Rightarrow> int \<Rightarrow> Node option" where
  "file_read c f pos =
     (let bs = uint (ActualNodeSize c) in
      if 0 \<le> pos \<and> pos mod bs = 0 \<and> pos + bs \<le> file_length c f
      then Some (f ! nat (pos div bs)) else None)"

definition file_write :: "config \<Rightarrow> Node list \<Rightarrow> int \<Rightarrow> Node \<Rightarrow> Node list option" where
  "file_write c f pos nd =
     (let bs = uint (ActualNodeSize c) in
      if 0 \<le> pos \<and> pos mod bs = 0
      then (let i = nat (pos div bs) in
            if i < length f then Some (f[i := nd])
            else Some (f @ replicate (i - length f) (zero_block c) @ [nd]))
      else None)"

definition readNode :: "config \<Rightarrow> int \<Rightarrow> BTree \<Rightarrow> bool \<times> BTree" where
  "readNode c nodeNum s =
     (case (if fail' s then None
            else case file' s of None \<Rightarrow> None
                 | Some p \<Rightarrow> (case disk s p of None \<Rightarrow> None
                              | Some f \<Rightarrow> file_read c f (nodeNum * uint (ActualNodeSize c)))) of
        None \<Rightarrow> (False, s\<lparr>fail' := True\<rparr>)
      | Some nd \<Rightarrow> (True, s\<lparr>currentNode' := nd\<rparr>))"

definition writeNode :: "config \<Rightarrow> int \<Rightarrow> Node \<Rightarrow> BTree \<Rightarrow> bool \<times> BTree" where
  "writeNode c nodeNum node s =
     (case (if fail' s \<or> mode' s = Read then None
            else case file' s of None \<Rightarrow> None
                 | Some p \<Rightarrow> (case disk s p of None \<Rightarrow> None
                              | Some f \<Rightarrow> map_option (Pair p)
                                  (file_write c f (nodeNum * uint (ActualNodeSize c)) node))) of
        None \<Rightarrow> (False, s\<lparr>fail' := True\<rparr>)
      | Some (p, f') \<Rightarrow> (True, s\<lparr>disk := (disk s)(p \<mapsto> f')\<rparr>))"

definition writeMetadata :: "config \<Rightarrow> BTree \<Rightarrow> BTree" where
  "writeMetadata c s =
     (let metaNode = Node0 c;
          metaNode = metaNode\<lparr>branches := (branches metaNode)[0 := numItems' s]\<rparr>;
          metaNode = metaNode\<lparr>branches := (branches metaNode)[1 := numNodes' s]\<rparr>;
          metaNode = metaNode\<lparr>branches := (branches metaNode)[2 := root' s]\<rparr>
      in snd (writeNode c 0 metaNode s))"

section \<open>Node-local search and insertion (BTree.h, lines 389-423)\<close>

function searchNode_loop :: "Node \<Rightarrow> string \<Rightarrow> int \<Rightarrow> int" where
  "searchNode_loop nd target location =
     (if location > 0 \<and> strcmp target (key (records nd ! nat location)) < 0
      then searchNode_loop nd target (location - 1) else location)"
  by pat_completeness auto
termination
  by (relation "measure (\<lambda>(nd, target, location). nat location)") auto

definition searchNode :: "Node \<Rightarrow> string \<Rightarrow> bool \<times> int" where
  "searchNode nd target =
     (if count nd = 0 then (False, - 1)
      else if strcmp target (key (records nd ! 0)) < 0 then (False, - 1)
      else (let location = searchNode_loop nd target (count nd - 1)
            in (strcmp target (key (records nd ! nat location)) = 0, location)))"

function addRecord_loop :: "Node \<Rightarrow> int \<Rightarrow> int \<Rightarrow> Node" where
  "addRecord_loop node j location =
     (if j > location
      then addRecord_loop
             (node\<lparr>records := (records node)[nat j := records node ! nat (j - 1)],
                   branches := (branches node)[nat (j + 1) := branches node ! nat j]\<rparr>)
             (j - 1) location
      else node)"
  by pat_completeness auto
termination
  by (relation "measure (\<lambda>(node, j, location). nat (j - location))") auto

definition addRecord :: "Record \<Rightarrow> int \<Rightarrow> Node \<Rightarrow> int \<Rightarrow> Node" where
  "addRecord record rightBranch node location =
     (let node = addRecord_loop node (count node) location;
          node = node\<lparr>records := (records node)[nat location := record]\<rparr>;
          node = node\<lparr>branches := (branches node)[nat (location + 1) := rightBranch]\<rparr>
      in node\<lparr>count := count node + 1\<rparr>)"

section \<open>Split and recursive insert (BTree.h, lines 428-504)\<close>

function split_loop :: "config \<Rightarrow> int \<Rightarrow> Node \<Rightarrow> Node \<Rightarrow> int \<Rightarrow> Node" where
  "split_loop c median cur rightNode j =
     (if j < to_int (MaxKeys c)
      then split_loop c median cur
             (rightNode\<lparr>records := (records rightNode)[nat (j - median) := records cur ! nat j],
                        branches := (branches rightNode)[nat (j - median + 1) := branches cur ! nat (j + 1)]\<rparr>)
             (j + 1)
      else rightNode)"
  by pat_completeness auto
termination
  by (relation "measure (\<lambda>(c, median, cur, rightNode, j). nat (to_int (MaxKeys c) - j))") auto

definition split ::
  "config \<Rightarrow> Record \<Rightarrow> int \<Rightarrow> int \<Rightarrow> int \<Rightarrow> BTree \<Rightarrow> (Record \<times> int) \<times> BTree" where
  "split c currentRecord currentRight currentRoot location s =
     (let median = to_int (if location < to_int (MinKeys c) then MinKeys c else MinKeys c + 1);
          s = snd (readNode c currentRoot s);
          rightNode = split_loop c median (currentNode' s) (Node0 c) median;
          rightNode = rightNode\<lparr>count := to_int (MaxKeys c - to_size_t median)\<rparr>;
          s = s\<lparr>currentNode' := (currentNode' s)\<lparr>count := median\<rparr>\<rparr>;
          (s, rightNode) =
             (if location < to_int (MinKeys c)
              then (s\<lparr>currentNode' :=
                        addRecord currentRecord currentRight (currentNode' s) (location + 1)\<rparr>,
                    rightNode)
              else (s, addRecord currentRecord currentRight rightNode (location - median + 1)));
          newRecord = records (currentNode' s) ! nat (count (currentNode' s) - 1);
          rightNode = rightNode\<lparr>branches :=
                        (branches rightNode)[0 := branches (currentNode' s) ! nat (count (currentNode' s))]\<rparr>;
          s = s\<lparr>currentNode' := (currentNode' s)\<lparr>count := count (currentNode' s) - 1\<rparr>\<rparr>;
          s = snd (writeNode c currentRoot (currentNode' s) s);
          s = s\<lparr>numNodes' := numNodes' s + 1\<rparr>;
          newRight = numNodes' s;
          s = snd (writeNode c newRight rightNode s)
      in ((newRecord, newRight), s))"

text \<open>
  \<open>pushDown\<close> returns the three reference parameters \<open>moveUp\<close>, \<open>newRecord\<close>,
  \<open>newRight\<close> and the session; a thrown exception is \<open>Inl\<close> with the session as the
  throw leaves it. The recursion follows branch numbers read from the file, so the
  function is partial: \<open>None\<close> is a descent that never ends.
  The call of \<open>split\<close> passes \<open>newRecord\<close> both as the record to insert and as the
  result parameter; \<open>split\<close> reads the former (in \<open>addRecord\<close>) before it assigns
  the latter, so passing the value is the same.
\<close>

partial_function (option) pushDown ::
  "config \<Rightarrow> Record \<Rightarrow> int \<Rightarrow> BTree \<Rightarrow> (error \<times> BTree + (bool \<times> Record \<times> int) \<times> BTree) option" where
  "pushDown c currentRecord currentRoot s =
     (if currentRoot = NilPtr then Some (Inr ((True, currentRecord, NilPtr), s))
      else
        (let s = snd (readNode c currentRoot s);
             (found, location) = searchNode (currentNode' s) (key currentRecord)
         in if found then Some (Inl (DuplicateKey, s))
            else
              Option.bind
                (pushDown c currentRecord (branches (currentNode' s) ! nat (location + 1)) s)
                (\<lambda>r. case r of
                   Inl e \<Rightarrow> Some (Inl e)
                 | Inr ((moveUp, newRecord, newRight), s) \<Rightarrow>
                     if moveUp then
                       (let s = snd (readNode c currentRoot s) in
                        if count (currentNode' s) < to_int (MaxKeys c) then
                          (let s = s\<lparr>currentNode' :=
                                      addRecord newRecord newRight (currentNode' s) (location + 1)\<rparr>;
                               s = snd (writeNode c currentRoot (currentNode' s) s)
                           in Some (Inr ((False, newRecord, newRight), s)))
                        else
                          (let ((newRecord, newRight), s) =
                                  split c newRecord newRight currentRoot location s
                           in Some (Inr ((True, newRecord, newRight), s))))
                     else Some (Inr ((False, newRecord, newRight), s)))))"

declare pushDown.simps [code]

definition insert_bt ::
  "config \<Rightarrow> string \<Rightarrow> string \<Rightarrow> BTree \<Rightarrow> (error \<times> BTree + BTree) option" where
  "insert_bt c k d s =
     (if \<not> isOpen' s \<or> mode' s \<noteq> Write then Some (Inl (NotWritable, s))
      else
        (let record = Record0 c;
             record = record\<lparr>key := strncpy (key record) k (unat (KeySize c - 1))\<rparr>;
             record = record\<lparr>data := memcpy (data record) d (unat (DataSize c))\<rparr>
         in Option.bind (pushDown c record (root' s) s)
              (\<lambda>r. case r of
                 Inl e \<Rightarrow> Some (Inl e)
               | Inr ((moveUp, newRecord, newRight), s) \<Rightarrow>
                   (let s =
                      (if moveUp then
                         (let newRoot = Node0 c;
                              newRoot = newRoot\<lparr>count := 1\<rparr>;
                              newRoot = newRoot\<lparr>records := (records newRoot)[0 := newRecord]\<rparr>;
                              newRoot = newRoot\<lparr>branches := (branches newRoot)[0 := root' s]\<rparr>;
                              newRoot = newRoot\<lparr>branches := (branches newRoot)[1 := newRight]\<rparr>;
                              s = s\<lparr>numNodes' := numNodes' s + 1\<rparr>;
                              s = s\<lparr>root' := numNodes' s\<rparr>
                          in snd (writeNode c (root' s) newRoot s))
                       else s)
                    in Some (Inr (s\<lparr>numItems' := numItems' s + 1\<rparr>))))))"

section \<open>Lookup (BTree.h, lines 269-325)\<close>

text \<open>
  \<open>retrieve\<close> returns \<open>Some payload\<close> for \<open>true\<close> with the payload copied out, and
  \<open>None\<close> for \<open>false\<close>. The \<open>while\<close> loop follows branch numbers read from the file.
\<close>

partial_function (option) retrieve_loop ::
  "config \<Rightarrow> string \<Rightarrow> int \<Rightarrow> BTree \<Rightarrow> (string option \<times> BTree) option" where
  "retrieve_loop c searchKey current s =
     (if current \<noteq> NilPtr then
        (let s = snd (readNode c current s);
             (found, location) = searchNode (currentNode' s) searchKey
         in if found
            then Some (Some (take (unat (DataSize c))
                               (data (records (currentNode' s) ! nat location))), s)
            else retrieve_loop c searchKey (branches (currentNode' s) ! nat (location + 1)) s)
      else Some (None, s))"

declare retrieve_loop.simps [code]

definition retrieve :: "config \<Rightarrow> string \<Rightarrow> BTree \<Rightarrow> (string option \<times> BTree) option" where
  "retrieve c k s =
     (if \<not> isOpen' s then Some (None, s)
      else
        (let searchKey = memset0 (unat (KeySize c));
             searchKey = strncpy searchKey k (unat (KeySize c - 1))
         in retrieve_loop c searchKey (root' s) s))"

definition contains :: "config \<Rightarrow> string \<Rightarrow> BTree \<Rightarrow> (bool \<times> BTree) option" where
  "contains c k s = map_option (\<lambda>(r, s). (r \<noteq> None, s)) (retrieve c k s)"

definition empty_bt :: "BTree \<Rightarrow> bool" where
  "empty_bt s = (root' s = NilPtr)"

definition size_bt :: "BTree \<Rightarrow> int" where
  "size_bt s = numItems' s"

section \<open>Open and close (BTree.h, lines 147-197)\<close>

definition close_bt :: "config \<Rightarrow> BTree \<Rightarrow> BTree" where
  "close_bt c s =
     (if \<not> isOpen' s then s
      else
        (let s = (if mode' s = Write then writeMetadata c s else s)
         in s\<lparr>file' := None, isOpen' := False, root' := NilPtr, numItems' := 0, numNodes' := 0\<rparr>))"

text \<open>
  Opening for writing creates or truncates the file, which the file system may refuse
  (\<open>can_create\<close>). Opening for reading fails when the file does not exist.
\<close>

definition open_bt :: "config \<Rightarrow> string \<Rightarrow> BTreeMode \<Rightarrow> BTree \<Rightarrow> bool \<times> BTree" where
  "open_bt c filename m s =
     (let s = close_bt c s;
          s = s\<lparr>mode' := m\<rparr>
      in if m = Read then
           (case disk s filename of
              None \<Rightarrow> (False, s\<lparr>fail' := True\<rparr>)
            | Some f \<Rightarrow>
               (let s = s\<lparr>file' := Some filename, fail' := False\<rparr>;
                    (ok, s) = readNode c 0 s
                in if \<not> ok then (False, s\<lparr>file' := None\<rparr>)
                   else
                     (let s = s\<lparr>numItems' := branches (currentNode' s) ! 0\<rparr>;
                          s = s\<lparr>numNodes' := branches (currentNode' s) ! 1\<rparr>;
                          s = s\<lparr>root' := branches (currentNode' s) ! 2\<rparr>
                      in (True, s\<lparr>isOpen' := True\<rparr>))))
         else if \<not> can_create s filename then (False, s\<lparr>fail' := True\<rparr>)
         else
           (let s = s\<lparr>disk := (disk s)(filename \<mapsto> []), file' := Some filename, fail' := False\<rparr>;
                s = s\<lparr>root' := NilPtr, numItems' := 0, numNodes' := 0\<rparr>;
                s = writeMetadata c s
            in (True, s\<lparr>isOpen' := True\<rparr>)))"

text \<open>A sequence of \<open>insert\<close> calls, stopping at the first exception.\<close>

fun insert_all :: "config \<Rightarrow> (string \<times> string) list \<Rightarrow> BTree \<Rightarrow> (error \<times> BTree + BTree) option" where
  "insert_all c [] s = Some (Inr s)"
| "insert_all c ((k, d) # kds) s =
     (case insert_bt c k d s of
        None \<Rightarrow> None
      | Some (Inl e) \<Rightarrow> Some (Inl e)
      | Some (Inr s') \<Rightarrow> insert_all c kds s')"

section \<open>The binary-search index (ProductIndex.h, ProductIndex.cpp)\<close>

definition MAX_PRODUCT_ID_LEN :: nat where
  "MAX_PRODUCT_ID_LEN = 64"

record ProductRecord =
  productId :: string
  nodeKey :: "64 word"

text \<open>
  \<open>strncpy_s(dest, destsz, src, count)\<close> with \<open>count < destsz\<close>: at most \<open>count\<close>
  bytes of the C string \<open>src\<close>, then a terminating NUL.
\<close>

definition strncpy_s :: "string \<Rightarrow> nat \<Rightarrow> string \<Rightarrow> nat \<Rightarrow> string" where
  "strncpy_s dest destsz src n =
     (let s = take n (cstr src) in s @ [NUL] @ drop (length s + 1) dest)"

definition ProductRecord0 :: ProductRecord where
  "ProductRecord0 = \<lparr>productId = memset0 MAX_PRODUCT_ID_LEN, nodeKey = 0\<rparr>"

definition ProductRecord2 :: "string \<Rightarrow> 64 word \<Rightarrow> ProductRecord" where
  "ProductRecord2 ident k =
     \<lparr>productId = strncpy_s (memset0 MAX_PRODUCT_ID_LEN) MAX_PRODUCT_ID_LEN ident
                     (MAX_PRODUCT_ID_LEN - 1),
      nodeKey = k\<rparr>"

definition less_ProductRecord :: "ProductRecord \<Rightarrow> ProductRecord \<Rightarrow> bool" where
  "less_ProductRecord a b = (strcmp (productId a) (productId b) < 0)"

text \<open>
  An index file is its \<open>size_t\<close> count header followed by the packed records. The
  positions of \<open>binarySearch\<close> are byte offsets: \<open>headerSize = 8\<close> and
  \<open>recordSize = sizeof(ProductRecord) = 72\<close>. Counts and positions are natural
  numbers here: the range of \<open>size_t\<close> is not reached before the file holds
  \<open>2^64 div 72\<close> records.
\<close>

record index_file =
  header :: nat
  recs :: "ProductRecord list"

definition headerSize :: nat where
  "headerSize = 8"

definition recordSize :: nat where
  "recordSize = MAX_PRODUCT_ID_LEN + 8"

record ProductIndex =
  pdisk :: "string \<Rightarrow> index_file option"
  pcan_create :: "string \<Rightarrow> bool"
  buffer' :: "ProductRecord list"
  indexFile' :: "string option"
  indexFail' :: bool
  recordCount' :: nat
  indexIsOpen' :: bool

definition ProductIndex0 ::
  "(string \<Rightarrow> index_file option) \<Rightarrow> (string \<Rightarrow> bool) \<Rightarrow> ProductIndex" where
  "ProductIndex0 dsk cc = \<lparr>pdisk = dsk, pcan_create = cc, buffer' = [], indexFile' = None,
                           indexFail' = False, recordCount' = 0, indexIsOpen' = False\<rparr>"

definition addRecordP :: "string \<Rightarrow> 64 word \<Rightarrow> ProductIndex \<Rightarrow> ProductIndex" where
  "addRecordP ident k s = s\<lparr>buffer' := buffer' s @ [ProductRecord2 ident k]\<rparr>"

definition closeIndex :: "ProductIndex \<Rightarrow> ProductIndex" where
  "closeIndex s =
     (let s = (if indexFile' s \<noteq> None then s\<lparr>indexFile' := None\<rparr> else s)
      in s\<lparr>indexIsOpen' := False, recordCount' := 0\<rparr>)"

definition openIndex :: "string \<Rightarrow> ProductIndex \<Rightarrow> bool \<times> ProductIndex" where
  "openIndex indexFilePath s =
     (let s = closeIndex s in
      case pdisk s indexFilePath of
        None \<Rightarrow> (False, s\<lparr>indexFail' := True\<rparr>)
      | Some f \<Rightarrow>
          (let s = s\<lparr>indexFile' := Some indexFilePath, indexFail' := False\<rparr>;
               s = s\<lparr>recordCount' := header f\<rparr>
           in (True, s\<lparr>indexIsOpen' := True\<rparr>)))"

text \<open>
  \<open>std::sort\<close> orders the buffer by \<open>operator<\<close>, that is by \<open>strcmp\<close> on the
  identifiers, and leaves the order of equal identifiers open; \<open>sort_key\<close> on the C
  string of the identifier is one such order.
\<close>

definition buildIndex :: "string \<Rightarrow> ProductIndex \<Rightarrow> bool \<times> ProductIndex" where
  "buildIndex indexFilePath s =
     (if buffer' s = [] then (False, s)
      else
        (let s = s\<lparr>buffer' := sort_key (\<lambda>r. cstr (productId r)) (buffer' s)\<rparr> in
         if \<not> pcan_create s indexFilePath then (False, s)
         else
           (let n = length (buffer' s);
                s = s\<lparr>pdisk := (pdisk s)(indexFilePath \<mapsto> \<lparr>header = n, recs = buffer' s\<rparr>)\<rparr>;
                s = s\<lparr>buffer' := []\<rparr>
            in openIndex indexFilePath s)))"

definition index_read :: "nat \<Rightarrow> ProductIndex \<Rightarrow> ProductRecord option \<times> ProductIndex" where
  "index_read pos s =
     (case (if indexFail' s then None
            else case indexFile' s of None \<Rightarrow> None
                 | Some p \<Rightarrow> (case pdisk s p of None \<Rightarrow> None
                    | Some f \<Rightarrow>
                        if headerSize \<le> pos \<and> (pos - headerSize) mod recordSize = 0
                           \<and> (pos - headerSize) div recordSize < length (recs f)
                        then Some (recs f ! ((pos - headerSize) div recordSize)) else None)) of
        None \<Rightarrow> (None, s\<lparr>indexFail' := True\<rparr>)
      | Some r \<Rightarrow> (Some r, s))"

function binarySearch_loop ::
  "string \<Rightarrow> nat \<Rightarrow> nat \<Rightarrow> ProductIndex \<Rightarrow> 64 word option \<times> ProductIndex" where
  "binarySearch_loop targetId left right s =
     (if left < right then
        (let mid = left + (right - left) div 2;
             pos = headerSize + mid * recordSize
         in case index_read pos s of
              (None, s) \<Rightarrow> (None, s)
            | (Some record, s) \<Rightarrow>
                (let cmp = strcmp targetId (productId record) in
                 if cmp = 0 then (Some (nodeKey record), s)
                 else if cmp < 0 then binarySearch_loop targetId left mid s
                 else binarySearch_loop targetId (mid + 1) right s))
      else (None, s))"
  by pat_completeness auto
termination
  by (relation "measure (\<lambda>(targetId, left, right, s). right - left)") auto

definition binarySearch :: "string \<Rightarrow> ProductIndex \<Rightarrow> 64 word option \<times> ProductIndex" where
  "binarySearch targetId s = binarySearch_loop targetId 0 (recordCount' s) s"

definition lookup :: "string \<Rightarrow> ProductIndex \<Rightarrow> 64 word option \<times> ProductIndex" where
  "lookup ident s =
     (if \<not> indexIsOpen' s \<or> recordCount' s = 0 then (None, s)
      else
        (let targetId = memset0 MAX_PRODUCT_ID_LEN;
             targetId = strncpy_s targetId MAX_PRODUCT_ID_LEN ident (MAX_PRODUCT_ID_LEN - 1)
         in binarySearch targetId s))"

definition containsRecord :: "string \<Rightarrow> ProductIndex \<Rightarrow> bool \<times> ProductIndex" where
  "containsRecord ident s = (let (r, s) = lookup ident s in (r \<noteq> None, s))"

fun addRecords :: "(string \<times> 64 word) list \<Rightarrow> ProductIndex \<Rightarrow> ProductIndex" where
  "addRecords [] s = s"
| "addRecords ((ident, k) # xs) s = addRecords xs (addRecordP ident k s)"

section \<open>Inputs used to exercise the theorems\<close>

definition cfg_std :: config where
  "cfg_std = \<lparr>KeySize = 32, DataSize = 8, NodeSize = 4096\<rparr>"

definition cfg_huge :: config where
  "cfg_huge = \<lparr>KeySize = 32, DataSize = 8, NodeSize = 0xFFFFFFFFFFFFFFFF\<rparr>"

definition cfg_small :: config where
  "cfg_small = \<lparr>KeySize = 4, DataSize = 1, NodeSize = 0\<rparr>"

definition index_built :: ProductIndex where
  "index_built =
     snd (buildIndex ''p'' (addRecordP ''a'' 1 (ProductIndex0 Map.empty (\<lambda>p. True))))"

definition disk_one :: "string \<Rightarrow> Node list option" where
  "disk_one = (\<lambda>p. if p = ''f'' then Some [Node0 cfg_small] else None)"

section \<open>Abstract B-trees and the invariants of a session\<close>

text \<open>
  The proofs relate the file to a tree of record lists. This section holds the notions
  they need; none of them changes the model of the code above.

  \<open>ckey\<close> is the key of a record as \<open>strcmp\<close> sees it and \<open>Mx\<close> is \<open>MaxKeys\<close> as an
  integer. \<open>wf_cfg\<close> singles out the configurations whose geometry fits the types of the
  code: a key buffer of at least one byte (\<open>KeySize - 1\<close> does not wrap), an order that
  \<open>static_cast<int>\<close> keeps, and a node size \<open>sizeof(Node)\<close> below \<open>2^64\<close>.
\<close>

definition ckey :: "Record \<Rightarrow> string" where
  "ckey r = cstr (key r)"

definition Mx :: "config \<Rightarrow> int" where
  "Mx c = uint (MaxKeys c)"

definition wf_cfg :: "config \<Rightarrow> bool" where
  "wf_cfg c \<longleftrightarrow>
     0 < uint (KeySize c) \<and> uint (Order c) < 2 ^ 31 \<and>
     4 + uint (MaxKeys c) * (uint (KeySize c) + uint (DataSize c)) + uint (Order c) * 8 < 2 ^ 64"

text \<open>
  The live part of a node: its first \<open>count\<close> records and \<open>count + 1\<close> branches.
  \<open>shape\<close> says that the arrays have their declared lengths and \<open>count\<close> is in range.
\<close>

definition nrecs :: "Node \<Rightarrow> Record list" where
  "nrecs nd = take (nat (count nd)) (records nd)"

definition nbrs :: "Node \<Rightarrow> int list" where
  "nbrs nd = take (nat (count nd) + 1) (branches nd)"

definition shape :: "config \<Rightarrow> Node \<Rightarrow> bool" where
  "shape c nd \<longleftrightarrow>
     0 \<le> count nd \<and> count nd \<le> Mx c \<and>
     length (records nd) = nat (Mx c) \<and> length (branches nd) = nat (Mx c) + 1"

text \<open>
  \<open>ins_at i x xs\<close> inserts \<open>x\<close> before position \<open>i\<close>; \<open>anode rs\<close> is a node holding
  exactly the records \<open>rs\<close>, used to run \<open>searchNode\<close> on a list of records.
\<close>

definition ins_at :: "nat \<Rightarrow> 'a \<Rightarrow> 'a list \<Rightarrow> 'a list" where
  "ins_at i x xs = take i xs @ x # drop i xs"

definition anode :: "Record list \<Rightarrow> Node" where
  "anode rs = \<lparr>count = int (length rs), records = rs, branches = []\<rparr>"

text \<open>
  An abstract tree: \<open>Lf\<close> stands for the branch \<open>-1\<close>, and \<open>Nd i rs ts\<close> for the node
  stored in block \<open>i\<close> with live records \<open>rs\<close> and subtrees \<open>ts\<close>. \<open>ids\<close> and \<open>idl\<close> are
  the block numbers of a tree, \<open>ents\<close> its records; \<open>okids\<close> says no block is used
  twice, \<open>hbal h\<close> that every leaf is at depth \<open>h\<close>, and \<open>cnt_ok\<close> that every node
  holds between \<open>MaxKeys div 2\<close> (one for the root) and \<open>MaxKeys\<close> records.
\<close>

datatype tree = Lf | Nd int "Record list" "tree list"

fun rid :: "tree \<Rightarrow> int" where
  "rid Lf = NilPtr"
| "rid (Nd i rs ts) = i"

fun ids :: "tree \<Rightarrow> int set" where
  "ids Lf = {}"
| "ids (Nd i rs ts) = insert i (\<Union>t \<in> set ts. ids t)"

fun ents :: "tree \<Rightarrow> Record set" where
  "ents Lf = {}"
| "ents (Nd i rs ts) = set rs \<union> (\<Union>t \<in> set ts. ents t)"

fun idl :: "tree \<Rightarrow> int list" where
  "idl Lf = []"
| "idl (Nd i rs ts) = i # concat (map idl ts)"

definition okids :: "tree \<Rightarrow> bool" where
  "okids t = distinct (idl t)"

fun hbal :: "nat \<Rightarrow> tree \<Rightarrow> bool" where
  "hbal 0 Lf = True"
| "hbal (Suc h) (Nd i rs ts) = (\<forall>t \<in> set ts. hbal h t)"
| "hbal h t = False"

fun cnt_ok :: "config \<Rightarrow> bool \<Rightarrow> tree \<Rightarrow> bool" where
  "cnt_ok c isroot Lf = True"
| "cnt_ok c isroot (Nd i rs ts) =
     ((if isroot then 1 else Mx c div 2) \<le> int (length rs) \<and> int (length rs) \<le> Mx c \<and>
      length ts = length rs + 1 \<and> (\<forall>t \<in> set ts. cnt_ok c False t))"

text \<open>
  \<open>rep c f t p\<close>: the blocks of the file \<open>f\<close> reachable from node number \<open>p\<close> store
  the tree \<open>t\<close>.
\<close>

function rep :: "config \<Rightarrow> Node list \<Rightarrow> tree \<Rightarrow> int \<Rightarrow> bool" where
  "rep c f Lf p = (p = NilPtr)"
| "rep c f (Nd i rs ts) p =
     (p = i \<and> 0 < i \<and> nat i < length f \<and> shape c (f ! nat i) \<and> nrecs (f ! nat i) = rs \<and>
      length ts = length rs + 1 \<and>
      (\<forall>j < length ts. rep c f (ts ! j) (nbrs (f ! nat i) ! j)))"
  by pat_completeness auto

termination
  by (relation "measure (\<lambda>(c, f, t, p). size t)")
     (auto simp: less_Suc_eq_le intro!: size_list_estimation')

text \<open>
  The search-tree order, with optional strict bounds: the keys of a node increase
  strictly, and subtree \<open>j\<close> lies between record \<open>j - 1\<close> and record \<open>j\<close>.
\<close>

definition ltb :: "string option \<Rightarrow> string \<Rightarrow> bool" where
  "ltb lo k = (case lo of None \<Rightarrow> True | Some l \<Rightarrow> l < k)"

definition gtb :: "string \<Rightarrow> string option \<Rightarrow> bool" where
  "gtb k hi = (case hi of None \<Rightarrow> True | Some h \<Rightarrow> k < h)"

definition lob :: "string option \<Rightarrow> Record list \<Rightarrow> nat \<Rightarrow> string option" where
  "lob lo rs j = (if j = 0 then lo else Some (ckey (rs ! (j - 1))))"

definition hib :: "string option \<Rightarrow> Record list \<Rightarrow> nat \<Rightarrow> string option" where
  "hib hi rs j = (if j < length rs then Some (ckey (rs ! j)) else hi)"

function bst :: "string option \<Rightarrow> string option \<Rightarrow> tree \<Rightarrow> bool" where
  "bst lo hi Lf = True"
| "bst lo hi (Nd i rs ts) =
     (sorted_wrt (<) (map ckey rs) \<and> length ts = length rs + 1 \<and>
      (\<forall>r \<in> set rs. ltb lo (ckey r) \<and> gtb (ckey r) hi) \<and>
      (\<forall>j < length ts. bst (lob lo rs j) (hib hi rs j) (ts ! j)))"
  by pat_completeness auto

termination
  by (relation "measure (\<lambda>(lo, hi, t). size t)")
     (auto simp: less_Suc_eq_le intro!: size_list_estimation')

text \<open>
  Insertion on abstract trees, following \<open>pushDown\<close> case by case: \<open>Dup\<close> is the
  duplicate-key exception, \<open>Stay\<close> a return with \<open>moveUp = false\<close>, and \<open>Up t' r' rt n'\<close>
  a return with \<open>moveUp = true\<close>, promoted record \<open>r'\<close> and new right sibling \<open>rt\<close>; the
  integer is the number of nodes allocated so far. \<open>alook\<close> is the descent of
  \<open>retrieve\<close>. That the code computes these functions is proved below
  (\<open>pushDown_refines\<close>, \<open>retrieve_loop_refines\<close>).
\<close>

datatype ins_res = Dup | Stay tree int | Up tree Record tree int

function ains :: "config \<Rightarrow> Record \<Rightarrow> tree \<Rightarrow> int \<Rightarrow> ins_res" where
  "ains c r Lf n = Up Lf r Lf n"
| "ains c r (Nd i rs ts) n =
     (case searchNode (anode rs) (key r) of
        (True, l) \<Rightarrow> Dup
      | (False, l) \<Rightarrow>
          (let ci = nat (l + 1) in
           if ci < length ts then
             (case ains c r (ts ! ci) n of
                Dup \<Rightarrow> Dup
              | Stay t' n' \<Rightarrow> Stay (Nd i rs (ts[ci := t'])) n'
              | Up t' r' rt n' \<Rightarrow>
                  (let rs2 = ins_at ci r' rs; ts2 = ins_at (ci + 1) rt (ts[ci := t']) in
                   if int (length rs) < Mx c then Stay (Nd i rs2 ts2) n'
                   else (let m = nat (Mx c div 2) in
                         Up (Nd i (take m rs2) (take (m + 1) ts2)) (rs2 ! m)
                            (Nd (n' + 1) (drop (m + 1) rs2) (drop (m + 1) ts2)) (n' + 1))))
           else Dup))"
  by pat_completeness auto

termination
  by (relation "measure (\<lambda>(c, r, t, n). size t)")
     (auto simp: less_Suc_eq_le intro!: size_list_estimation')

function alook :: "tree \<Rightarrow> string \<Rightarrow> Record option" where
  "alook Lf k = None"
| "alook (Nd i rs ts) k =
     (case searchNode (anode rs) k of
        (True, l) \<Rightarrow> Some (rs ! nat l)
      | (False, l) \<Rightarrow> (if nat (l + 1) < length ts then alook (ts ! nat (l + 1)) k else None))"
  by pat_completeness auto

termination
  by (relation "measure (\<lambda>(t, k). size t)")
     (auto simp: less_Suc_eq_le intro!: size_list_estimation')

text \<open>
  \<open>good c p f n s\<close>: the session \<open>s\<close> is attached for writing to the file \<open>p\<close> with
  contents \<open>f\<close>, and \<open>f\<close> holds the header and \<open>n = numNodes\<close> nodes. \<open>stu\<close> is a session
  after file, node count and scratch node have changed, and \<open>frame\<close> says which blocks
  an operation leaves alone.
\<close>

definition good :: "config \<Rightarrow> string \<Rightarrow> Node list \<Rightarrow> int \<Rightarrow> BTree \<Rightarrow> bool" where
  "good c p f n s \<longleftrightarrow>
     file' s = Some p \<and> disk s p = Some f \<and> \<not> fail' s \<and> mode' s = Write \<and>
     numNodes' s = n \<and> 0 \<le> n \<and> length f = nat n + 1"

definition stu :: "BTree \<Rightarrow> string \<Rightarrow> Node list \<Rightarrow> int \<Rightarrow> Node \<Rightarrow> BTree" where
  "stu s p f n cn = s\<lparr>disk := (disk s)(p \<mapsto> f), numNodes' := n, currentNode' := cn\<rparr>"

definition frame :: "Node list \<Rightarrow> Node list \<Rightarrow> int \<Rightarrow> int set \<Rightarrow> bool" where
  "frame f f' n I \<longleftrightarrow> (\<forall>j. 0 \<le> j \<and> j \<le> n \<and> j \<notin> I \<longrightarrow> f' ! nat j = f ! nat j)"

text \<open>
  What \<open>retrieve\<close> copies out of a record, the key as \<open>insert\<close> and \<open>retrieve\<close> store
  it (lines 212-214 and 272-274), and the record \<open>insert\<close> builds (lines 212-216).
\<close>

definition payload :: "config \<Rightarrow> Record \<Rightarrow> string" where
  "payload c r = take (unat (DataSize c)) (data r)"

definition stored_key :: "config \<Rightarrow> string \<Rightarrow> string" where
  "stored_key c k = cstr (strncpy (memset0 (unat (KeySize c))) k (unat (KeySize c - 1)))"

definition mk_record :: "config \<Rightarrow> string \<Rightarrow> string \<Rightarrow> Record" where
  "mk_record c k d =
     (let record = Record0 c;
          record = record\<lparr>key := strncpy (key record) k (unat (KeySize c - 1))\<rparr>;
          record = record\<lparr>data := memcpy (data record) d (unat (DataSize c))\<rparr>
      in record)"

text \<open>
  Insertion at the root as \<open>insert\<close> does it: a record moving up becomes a new root
  (\<open>new_root\<close> is the node \<open>insert\<close> writes). \<open>winv\<close> and \<open>tinv\<close> are the invariants of
  a write session and of the tree it stores; \<open>metaNode\<close> is the header block of
  \<open>writeMetadata\<close>.
\<close>

definition atop :: "config \<Rightarrow> Record \<Rightarrow> tree \<Rightarrow> int \<Rightarrow> (tree \<times> int) option" where
  "atop c r t n =
     (case ains c r t n of
        Dup \<Rightarrow> None
      | Stay t' n' \<Rightarrow> Some (t', n')
      | Up t' r' rt n' \<Rightarrow> Some (Nd (n' + 1) [r'] [t', rt], n' + 1))"

definition winv :: "config \<Rightarrow> string \<Rightarrow> BTree \<Rightarrow> tree \<Rightarrow> bool" where
  "winv c p s t \<longleftrightarrow>
     isOpen' s \<and> (\<exists>f. good c p f (numNodes' s) s \<and> rep c f t (root' s)) \<and>
     okids t \<and> ids t \<subseteq> {1 .. numNodes' s}"

definition new_root :: "config \<Rightarrow> Record \<Rightarrow> int \<Rightarrow> int \<Rightarrow> Node" where
  "new_root c nr q nrt =
     (Node0 c)\<lparr>count := 1, records := (records (Node0 c))[0 := nr],
               branches := ((branches (Node0 c))[0 := q])[1 := nrt]\<rparr>"

definition tinv :: "config \<Rightarrow> tree \<Rightarrow> bool" where
  "tinv c t \<longleftrightarrow> bst None None t \<and> (\<exists>h. hbal h t) \<and> cnt_ok c True t"

definition metaNode :: "config \<Rightarrow> BTree \<Rightarrow> Node" where
  "metaNode c s =
     (let metaNode = Node0 c;
          metaNode = metaNode\<lparr>branches := (branches metaNode)[0 := numItems' s]\<rparr>;
          metaNode = metaNode\<lparr>branches := (branches metaNode)[1 := numNodes' s]\<rparr>;
          metaNode = metaNode\<lparr>branches := (branches metaNode)[2 := root' s]\<rparr>
      in metaNode)"

text \<open>
  The B-tree shape read off the file: \<open>node_ok c f isroot h p\<close> holds when every path
  from node \<open>p\<close> reaches \<open>-1\<close> after exactly \<open>h\<close> nodes and every node on the way
  holds between \<open>MinKeys\<close> (one for the root) and \<open>MaxKeys\<close> records.
  \<open>stored_records\<close> lists the live records of all blocks of a file.
\<close>

fun node_ok :: "config \<Rightarrow> Node list \<Rightarrow> bool \<Rightarrow> nat \<Rightarrow> int \<Rightarrow> bool" where
  "node_ok c f isroot 0 p = (p = NilPtr)"
| "node_ok c f isroot (Suc h) p =
     (0 < p \<and> nat p < length f \<and>
      (if isroot then 1 else to_int (MinKeys c)) \<le> count (f ! nat p) \<and>
      count (f ! nat p) \<le> to_int (MaxKeys c) \<and>
      list_all (node_ok c f False h) (nbrs (f ! nat p)))"

definition stored_records :: "Node list \<Rightarrow> Record list" where
  "stored_records f = concat (map nrecs f)"


text \<open>
  Further inputs used to exercise the theorems: four inserts into a tree of order 3,
  enough to split a node and grow a new root, one of them with a key longer than
  \<open>KeySize - 1\<close>.
\<close>

definition kds_small :: "(string \<times> string) list" where
  "kds_small = [(''b'', ''x''), (''a'', ''y''), (''c'', ''z''), (''dlong'', ''w'')]"

definition s0_small :: BTree where
  "s0_small = BTree0 cfg_small Map.empty (\<lambda>p. True)"

definition s0_std :: BTree where
  "s0_std = BTree0 cfg_std Map.empty (\<lambda>p. True)"

text \<open>
  Three files for read sessions, each with the header of a tree of one item and one node
  whose root is node 1. In \<open>disk_tree\<close> node 1 is the root \<open>insert\<close> writes for the
  first key. In \<open>disk_loop\<close> node 1 is empty and its branch 0 is node 1 again. In
  \<open>disk_trunc\<close> the file ends after the header.
\<close>

definition hdr_one :: Node where
  "hdr_one = (Node0 cfg_small)\<lparr>branches := (branches (Node0 cfg_small))[0 := 1, 1 := 1, 2 := 1]\<rparr>"







definition disk_trunc :: "string \<Rightarrow> Node list option" where
  "disk_trunc = (\<lambda>p. if p = ''f'' then Some [hdr_one] else None)"

definition s_trunc :: BTree where
  "s_trunc = snd (open_bt cfg_small ''f'' Read (BTree0 cfg_small disk_trunc (\<lambda>p. True)))"

text \<open>
  The identifier as \<open>ProductRecord\<close> and \<open>lookup\<close> store it, and the C string of a
  record's identifier.
\<close>

definition stored_id :: "string \<Rightarrow> string" where
  "stored_id ident =
     cstr (strncpy_s (memset0 MAX_PRODUCT_ID_LEN) MAX_PRODUCT_ID_LEN ident (MAX_PRODUCT_ID_LEN - 1))"

definition pkey :: "ProductRecord \<Rightarrow> string" where
  "pkey r = cstr (productId r)"

definition kvs_small :: "(string \<times> 64 word) list" where
  "kvs_small = [(''b'', 2), (''a'', 1), (''c'', 3)]"

section \<open>Geometry\<close>

lemma Order_ge3: "3 \<le> Order c"
  by (simp add: Order_def not_less)

lemma unat_Order_ge3: "3 \<le> unat (Order c)"
  using Order_ge3[of c] by (simp add: word_le_nat_alt)

lemma unat_MaxKeys: "unat (MaxKeys c) = unat (Order c) - 1"
  unfolding MaxKeys_def using unat_Order_ge3[of c]
  by (simp add: unat_sub word_le_nat_alt)

lemma unat_MinKeys: "unat (MinKeys c) = (unat (Order c) - 1) div 2"
  unfolding MinKeys_def using unat_MaxKeys[of c]
  by (simp add: unat_div MaxKeys_def)

lemma unat_OrderCalc:
  assumes "unat (NodeSize c) + unat (KeySize c) + unat (DataSize c) + 8 < 2^64"
  shows "unat (OrderCalc c) =
     (unat (NodeSize c) + unat (KeySize c) + unat (DataSize c) + 4) div (unat (KeySize c) + unat (DataSize c) + 8)"
proof -
  have R: "unat (RecordSize c) = unat (KeySize c) + unat (DataSize c)"
    unfolding RecordSize_def using assms by (simp add: unat_add_lem[THEN iffD1])
  have R8: "unat (RecordSize c + 8) = unat (KeySize c) + unat (DataSize c) + 8"
    using assms R by (simp add: unat_add_lem[THEN iffD1])
  have e: "NodeSize c - 4 + RecordSize c + 8 = NodeSize c + RecordSize c + 4" by simp
  have NR: "unat (NodeSize c + RecordSize c) = unat (NodeSize c) + unat (KeySize c) + unat (DataSize c)"
    using assms R by (simp add: unat_add_lem[THEN iffD1])
  have N4: "unat (NodeSize c + RecordSize c + 4) = unat (NodeSize c) + unat (KeySize c) + unat (DataSize c) + 4"
    using assms NR by (simp add: unat_add_lem[THEN iffD1])
  show ?thesis
    unfolding OrderCalc_def e by (simp add: unat_div N4 R8)
qed

lemma uint_Order_ge3: "3 \<le> uint (Order c)"
  using Order_ge3[of c] by (simp add: word_le_def)

lemma uint_MaxKeys: "uint (MaxKeys c) = uint (Order c) - 1"
proof -
  have "uint (1 :: 64 word) \<le> uint (Order c)" using uint_Order_ge3[of c] by simp
  then have "uint (Order c - 1) = uint (Order c) - uint (1 :: 64 word)"
    by (simp only: uint_sub_lem)
  then show ?thesis by (simp add: MaxKeys_def)
qed

lemma uint_MinKeys: "uint (MinKeys c) = (uint (Order c) - 1) div 2"
  using uint_MaxKeys[of c] by (simp add: MinKeys_def MaxKeys_def uint_div)

lemma uint_OrderCalc:
  assumes a: "uint (NodeSize c) + uint (KeySize c) + uint (DataSize c) + 8 < 2 ^ 64"
  shows "uint (OrderCalc c) =
           (uint (NodeSize c) - 4 + (uint (KeySize c) + uint (DataSize c)) + 8)
             div ((uint (KeySize c) + uint (DataSize c)) + 8)"
proof -
  have "int (unat (NodeSize c) + unat (KeySize c) + unat (DataSize c) + 8) < int (2 ^ 64)"
    using a unfolding uint_nat by (simp only: of_nat_add of_nat_numeral of_nat_power)
  then have a': "unat (NodeSize c) + unat (KeySize c) + unat (DataSize c) + 8 < 2 ^ 64"
    by (rule of_nat_less_imp_less)
  have "uint (OrderCalc c) =
          int ((unat (NodeSize c) + unat (KeySize c) + unat (DataSize c) + 4)
                 div (unat (KeySize c) + unat (DataSize c) + 8))"
    by (simp only: uint_nat unat_OrderCalc[OF a'])
  also have "\<dots> = (uint (NodeSize c) - 4 + (uint (KeySize c) + uint (DataSize c)) + 8)
             div ((uint (KeySize c) + uint (DataSize c)) + 8)"
    by (simp add: zdiv_int ac_simps)
  finally show ?thesis .
qed

section \<open>The order formula, read sessions and the empty index build\<close>

text \<open>
  Claim C4, as the code has it. \<open>order()\<close> is a function of the configuration alone.
  Whenever \<open>N + K + D + 8\<close> stays below \<open>2^64\<close>, so that the \<open>size_t\<close>
  arithmetic does not wrap, \<open>Order = max 3 ((N - 4 + (K + D) + 8) div ((K + D) + 8))\<close>;
  for every configuration \<open>Order \<ge> 3\<close>, \<open>MaxKeys = Order - 1\<close> and
  \<open>MinKeys = (Order - 1) div 2\<close>.
\<close>

theorem order_formula:
  "(uint (NodeSize c) + uint (KeySize c) + uint (DataSize c) + 8 < 2 ^ 64 \<longrightarrow>
      uint (Order c) =
        max 3 ((uint (NodeSize c) - 4 + (uint (KeySize c) + uint (DataSize c)) + 8)
               div ((uint (KeySize c) + uint (DataSize c)) + 8)))
   \<and> 3 \<le> uint (Order c)
   \<and> uint (MaxKeys c) = uint (Order c) - 1
   \<and> uint (MinKeys c) = (uint (Order c) - 1) div 2"
proof (intro conjI impI)
  assume a: "uint (NodeSize c) + uint (KeySize c) + uint (DataSize c) + 8 < 2 ^ 64"
  show "uint (Order c) =
        max 3 ((uint (NodeSize c) - 4 + (uint (KeySize c) + uint (DataSize c)) + 8)
               div ((uint (KeySize c) + uint (DataSize c)) + 8))"
    unfolding uint_OrderCalc[OF a, symmetric] by (simp add: Order_def word_less_def max_def)
qed (rule uint_Order_ge3 uint_MaxKeys uint_MinKeys)+

theorem order_formula_witness:
  "uint (Order cfg_std) = 86 \<and> uint (MaxKeys cfg_std) = 85 \<and> uint (MinKeys cfg_std) = 42"
  using order_formula [of cfg_std] by (simp add: cfg_std_def)

text \<open>
  Claim C4 as stated fails where the numerator wraps: for \<open>BTree<32, 8, 2^64 - 1>\<close> the
  header computes \<open>(2^64 - 1 - 4 + 40 + 8) mod 2^64 = 43\<close>, \<open>43 div 48 = 0\<close> and
  clamps to \<open>Order = 3\<close>, while the formula over the integers gives a huge order.
\<close>

theorem order_formula_overflow:
  "uint (Order cfg_huge) \<noteq>
     max 3 ((uint (NodeSize cfg_huge) - 4 + (uint (KeySize cfg_huge) + uint (DataSize cfg_huge)) + 8)
            div ((uint (KeySize cfg_huge) + uint (DataSize cfg_huge)) + 8))"
  by (simp add: cfg_huge_def Order_def OrderCalc_def RecordSize_def)

lemma open_bt_Read_mode: "open_bt c path Read s0 = (True, s) \<Longrightarrow> mode' s = Read"
  by (auto simp: open_bt_def Let_def readNode_def split: option.splits if_splits prod.splits)

text \<open>
  Claim C7. In a session opened in read mode every \<open>insert\<close> throws the "not open for
  writing" error and leaves the whole session, and with it every file of the file
  system, exactly as it was.
\<close>

theorem insert_read_session:
  "open_bt c path Read s0 = (True, s) \<Longrightarrow> insert_bt c k d s = Some (Inl (NotWritable, s))"
  by (simp add: insert_bt_def open_bt_Read_mode)

text \<open>
  Claim C10, as the code has it. With an empty buffer \<open>buildIndex\<close> returns
  \<open>false\<close> at once: no file is written or truncated and the index keeps the state it
  had, open or closed.
\<close>

theorem buildIndex_empty:
  "buffer' s = [] \<Longrightarrow> buildIndex path s = (False, s)"
  by (simp add: buildIndex_def)

theorem buildIndex_empty_witness:
  "buildIndex ''p'' (ProductIndex0 Map.empty (\<lambda>p. True))
     = (False, ProductIndex0 Map.empty (\<lambda>p. True))"
  using buildIndex_empty [of "ProductIndex0 Map.empty (\<lambda>p. True)" "''p''"]
  by (simp add: ProductIndex0_def)

text \<open>
  Claim C10 as stated fails after a successful build, which leaves the index open for
  reading: the next \<open>buildIndex\<close> finds the buffer empty, returns \<open>false\<close> and the
  index is still open.
\<close>

theorem buildIndex_empty_stays_open:
  "buffer' index_built = [] \<and> indexIsOpen' (snd (buildIndex ''q'' index_built))"
  by (simp add: index_built_def buildIndex_def addRecordP_def ProductIndex0_def openIndex_def closeIndex_def Let_def)

lemma Order_small: "Order cfg_small = 3"
  by (simp add: cfg_small_def Order_def OrderCalc_def RecordSize_def)

lemma ANS_small: "ActualNodeSize cfg_small = 38"
  by (simp add: ActualNodeSize_def MaxKeys_def Order_small) (simp add: cfg_small_def RecordSize_def)

lemma open_one:
  "fst (open_bt cfg_small ''f'' Read (BTree0 cfg_small disk_one (\<lambda>p. True)))"
  by (simp add: open_bt_def close_bt_def BTree0_def disk_one_def readNode_def file_read_def
      file_length_def ANS_small Let_def)

theorem insert_read_session_witness:
  "insert_bt cfg_small ''k'' ''d''
      (snd (open_bt cfg_small ''f'' Read (BTree0 cfg_small disk_one (\<lambda>p. True))))
   = Some (Inl (NotWritable, snd (open_bt cfg_small ''f'' Read (BTree0 cfg_small disk_one (\<lambda>p. True)))))"
  using open_one insert_read_session [of cfg_small "''f''" "BTree0 cfg_small disk_one (\<lambda>p. True)"
      "snd (open_bt cfg_small ''f'' Read (BTree0 cfg_small disk_one (\<lambda>p. True)))" "''k''" "''d''"]
  by (simp add: prod_eq_iff)

section \<open>C strings\<close>

lemma of_char_0_iff: "(of_char b :: nat) = 0 \<longleftrightarrow> b = NUL"
proof
  assume "(of_char b :: nat) = 0"
  then have "(of_char b :: nat) = of_char NUL" by simp
  then show "b = NUL" by (simp only: of_char_eq_iff)
qed simp

lemma strcmp_less: "strcmp a b < 0 \<longleftrightarrow> cstr a < cstr b"
  by (induction a b rule: strcmp.induct) (auto simp: cstr_def less_char_def of_char_0_iff)

lemma strcmp_eq: "strcmp a b = 0 \<longleftrightarrow> cstr a = cstr b"
  by (induction a b rule: strcmp.induct) (auto simp: cstr_def)

lemma cstr_no_NUL: "NUL \<notin> set (cstr s)"
  unfolding cstr_def by (induction s) auto

lemma cstr_idem: "NUL \<notin> set s \<Longrightarrow> cstr (s @ NUL # t) = s"
  unfolding cstr_def by (induction s) auto

lemma cstr_idem': "NUL \<notin> set s \<Longrightarrow> cstr (s @ replicate n NUL) = s"
  unfolding cstr_def by (induction s) (auto simp: takeWhile_eq_Nil_iff)

lemma take_cstr_no_NUL: "NUL \<notin> set (take n (cstr s))"
  using cstr_no_NUL[of s] by (meson in_set_takeD)

lemma cstr_strncpy:
  "0 < K \<Longrightarrow> cstr (strncpy (memset0 K) src (K - 1)) = take (K - 1) (cstr src)"
proof -
  assume K: "0 < K"
  have "strncpy (memset0 K) src (K - 1)
        = take (K - 1) (cstr src) @ replicate (K - 1 - length (take (K - 1) (cstr src)) + 1) NUL"
    using K by (simp add: strncpy_def memset0_def Let_def replicate_append_same)
  then show ?thesis by (simp only: cstr_idem'[OF take_cstr_no_NUL])
qed

lemma length_strncpy:
  "0 < K \<Longrightarrow> length (strncpy (memset0 K) src (K - 1)) = K"
  by (auto simp add: strncpy_def memset0_def Let_def)

lemma cstr_strncpy_s:
  "cstr (strncpy_s dest sz src n) = take n (cstr src)"
  unfolding strncpy_s_def Let_def using cstr_idem[OF take_cstr_no_NUL] by simp

section \<open>Word arithmetic of the geometry\<close>

lemma to_int_small: "uint w < 2 ^ 31 \<Longrightarrow> to_int w = uint w"
proof -
  assume a: "uint w < 2 ^ 31"
  have "- (2 ^ 31) \<le> uint w" by (rule order_trans[of _ 0]) simp_all
  then have "signed_take_bit 31 (uint w) = uint w"
    using a by (rule signed_take_bit_int_eq_self)
  then show ?thesis unfolding to_int_def by (simp add: signed_ucast_eq)
qed

lemma uint_plus1: "uint (w :: 64 word) < 2 ^ 31 \<Longrightarrow> uint (w + 1) = uint w + 1"
proof -
  assume a: "uint w < 2 ^ 31"
  have "uint w + uint (1 :: 64 word) < 2 ^ LENGTH(64)" using a by simp
  then have "uint (w + 1) = uint w + uint (1 :: 64 word)" by (simp only: uint_add_lem)
  then show ?thesis by simp
qed

lemma uint_to_size_t: "0 \<le> i \<Longrightarrow> i < 2 ^ 31 \<Longrightarrow> uint (to_size_t i) = i"
  unfolding to_size_t_def by (simp add: uint_word_of_int)

lemma uint_minus_to_size_t:
  assumes "0 \<le> i" "i \<le> uint (w :: 64 word)" "uint w < 2 ^ 31"
  shows "uint (w - to_size_t i) = uint w - i"
proof -
  have i: "uint (to_size_t i) = i" using assms by (intro uint_to_size_t) auto
  have "uint (to_size_t i) \<le> uint w" using assms i by simp
  then have "uint (w - to_size_t i) = uint w - uint (to_size_t i)" by (simp only: uint_sub_lem)
  then show ?thesis using i by simp
qed

lemma wf_Mx:
  assumes "wf_cfg c"
  shows "2 \<le> Mx c" "Mx c < 2 ^ 31" "uint (Order c) = Mx c + 1"
  using assms uint_Order_ge3[of c] uint_MaxKeys[of c] by (auto simp: wf_cfg_def Mx_def)

lemma wf_to_int_MaxKeys: "wf_cfg c \<Longrightarrow> to_int (MaxKeys c) = Mx c"
  using wf_Mx[of c] by (simp add: to_int_small Mx_def)

lemma uint_MinKeys_Mx: "uint (MinKeys c) = Mx c div 2"
  using uint_MinKeys[of c] uint_MaxKeys[of c] by (simp add: Mx_def)

lemma wf_to_int_MinKeys: "wf_cfg c \<Longrightarrow> to_int (MinKeys c) = Mx c div 2"
  using wf_Mx[of c] uint_MinKeys_Mx[of c] by (simp add: to_int_small)

lemma wf_to_int_MinKeys1: "wf_cfg c \<Longrightarrow> to_int (MinKeys c + 1) = Mx c div 2 + 1"
proof -
  assume w: "wf_cfg c"
  have a: "uint (MinKeys c) < 2 ^ 31" using wf_Mx[OF w] uint_MinKeys_Mx[of c] by simp
  have b: "uint (MinKeys c + 1) = Mx c div 2 + 1"
    using uint_plus1[OF a] uint_MinKeys_Mx[of c] by simp
  have "uint (MinKeys c + 1) < 2 ^ 31" using wf_Mx[OF w] b by simp
  then show ?thesis using b by (simp add: to_int_small)
qed

lemma wf_to_int_diff:
  assumes w: "wf_cfg c" and i: "0 \<le> i" "i \<le> Mx c"
  shows "to_int (MaxKeys c - to_size_t i) = Mx c - i"
proof -
  have a: "uint (MaxKeys c) < 2 ^ 31" using wf_Mx[OF w] by (simp add: Mx_def)
  have b: "uint (MaxKeys c - to_size_t i) = Mx c - i"
    using uint_minus_to_size_t[of i "MaxKeys c"] i a by (simp add: Mx_def)
  have "uint (MaxKeys c - to_size_t i) < 2 ^ 31" using b a i by (simp add: Mx_def)
  then show ?thesis using b by (simp add: to_int_small)
qed

lemma wf_unat_MaxKeys: "unat (MaxKeys c) = nat (Mx c)"
  by (simp add: Mx_def)

lemma wf_unat_Order: "unat (Order c) = nat (Mx c) + 1"
  using uint_MaxKeys[of c] uint_Order_ge3[of c] by (simp add: Mx_def nat_diff_distrib' flip: nat_uint_eq) 

lemma wf_unat_KeySize1: "wf_cfg c \<Longrightarrow> unat (KeySize c - 1) = unat (KeySize c) - 1"
proof -
  assume w: "wf_cfg c"
  have "uint (1 :: 64 word) \<le> uint (KeySize c)" using w by (simp add: wf_cfg_def)
  then have "uint (KeySize c - 1) = uint (KeySize c) - uint (1 :: 64 word)"
    by (simp only: uint_sub_lem)
  then have "nat (uint (KeySize c - 1)) = nat (uint (KeySize c) - 1)" by simp
  then show ?thesis by (simp add: nat_diff_distrib')
qed

lemma ans_arith:
  fixes K D M O' :: int
  assumes "0 \<le> K" "0 \<le> D" "2 \<le> M" "0 \<le> O'" "4 + M * (K + D) + O' * 8 < 2 ^ 64"
  shows "K + D < 2 ^ 64" "M * (K + D) < 2 ^ 64" "O' * 8 < 2 ^ 64" "4 + M * (K + D) < 2 ^ 64"
proof -
  have "1 * (K + D) \<le> M * (K + D)"
    by (rule mult_right_mono) (use assms in simp_all)
  then have a: "K + D \<le> M * (K + D)" by simp
  have b: "0 \<le> K + D" using assms by simp
  show "K + D < 2 ^ 64" "M * (K + D) < 2 ^ 64" "O' * 8 < 2 ^ 64" "4 + M * (K + D) < 2 ^ 64"
    using a b assms(4,5) by linarith+
qed

lemma uint_ActualNodeSize:
  assumes w: "wf_cfg c"
  shows "uint (ActualNodeSize c)
         = 4 + uint (MaxKeys c) * (uint (KeySize c) + uint (DataSize c)) + uint (Order c) * 8"
proof -
  let ?K = "uint (KeySize c)" and ?D = "uint (DataSize c)"
  let ?M = "uint (MaxKeys c)" and ?O = "uint (Order c)"
  have tot: "4 + ?M * (?K + ?D) + ?O * 8 < 2 ^ 64" using w by (simp add: wf_cfg_def)
  have M2: "2 \<le> ?M" using wf_Mx[OF w] by (simp add: Mx_def)
  note ar = ans_arith[OF _ _ M2 _ tot, simplified]
  have kd: "?K + ?D < 2 ^ LENGTH(64)" using ar(1) by simp
  then have R: "uint (RecordSize c) = ?K + ?D"
    unfolding RecordSize_def by (simp only: uint_add_lem)
  have "?M * uint (RecordSize c) < 2 ^ LENGTH(64)" using ar(2) R by simp
  then have "uint (MaxKeys c * RecordSize c) = ?M * uint (RecordSize c)"
    by (simp only: uint_mult_lem)
  then have MR: "uint (MaxKeys c * RecordSize c) = ?M * (?K + ?D)"
    using R by simp
  have "?O * uint (8 :: 64 word) < 2 ^ LENGTH(64)" using ar(3) by simp
  then have "uint (Order c * 8) = ?O * uint (8 :: 64 word)"
    by (simp only: uint_mult_lem)
  then have O8: "uint (Order c * 8) = ?O * 8" by simp
  have "uint (4 :: 64 word) + uint (MaxKeys c * RecordSize c) < 2 ^ LENGTH(64)"
    using ar(4) MR by simp
  then have "uint (4 + MaxKeys c * RecordSize c) = uint (4 :: 64 word) + uint (MaxKeys c * RecordSize c)"
    by (simp only: uint_add_lem)
  then have A: "uint (4 + MaxKeys c * RecordSize c) = 4 + ?M * (?K + ?D)"
    using MR by simp
  have "uint (4 + MaxKeys c * RecordSize c) + uint (Order c * 8) < 2 ^ LENGTH(64)"
    using tot A O8 by simp
  then have "uint (4 + MaxKeys c * RecordSize c + Order c * 8)
             = uint (4 + MaxKeys c * RecordSize c) + uint (Order c * 8)"
    by (simp only: uint_add_lem)
  then show ?thesis using A O8 by (simp add: ActualNodeSize_def)
qed

lemma wf_ANS: "wf_cfg c \<Longrightarrow> 0 < uint (ActualNodeSize c)"
proof -
  assume w: "wf_cfg c"
  have "0 \<le> uint (MaxKeys c) * (uint (KeySize c) + uint (DataSize c))" by simp
  moreover have "0 \<le> uint (Order c) * 8" by simp
  ultimately show ?thesis unfolding uint_ActualNodeSize[OF w] by linarith
qed

section \<open>The node operations\<close>

subsection \<open>Block I/O\<close>

lemma file_read_block:
  assumes "wf_cfg c" "0 \<le> n" "nat n < length f"
  shows "file_read c f (n * uint (ActualNodeSize c)) = Some (f ! nat n)"
proof -
  let ?bs = "uint (ActualNodeSize c)"
  have bs: "0 < ?bs" using wf_ANS[OF assms(1)] .
  have "n + 1 \<le> int (length f)" using assms by linarith
  then have "(n + 1) * ?bs \<le> int (length f) * ?bs" using bs by (intro mult_right_mono) simp_all
  then have le: "n * ?bs + ?bs \<le> int (length f) * ?bs" by (simp add: algebra_simps)
  have "0 \<le> n * ?bs" using assms(2) bs by simp
  then show ?thesis using bs le by (simp add: file_read_def file_length_def Let_def)
qed

lemma file_write_block:
  assumes "wf_cfg c" "0 \<le> n" "nat n \<le> length f"
  shows "file_write c f (n * uint (ActualNodeSize c)) nd
         = Some (if nat n < length f then f[nat n := nd] else f @ [nd])"
proof -
  let ?bs = "uint (ActualNodeSize c)"
  have bs: "0 < ?bs" using wf_ANS[OF assms(1)] .
  have "0 \<le> n * ?bs" using assms(2) bs by simp
  then show ?thesis using bs assms(3) by (auto simp add: file_write_def Let_def)
qed

lemma readNode_ok:
  assumes "wf_cfg c" "file' s = Some p" "disk s p = Some f" "\<not> fail' s" "0 \<le> n" "nat n < length f"
  shows "readNode c n s = (True, s\<lparr>currentNode' := f ! nat n\<rparr>)"
  using assms by (simp add: readNode_def file_read_block)

lemma writeNode_ok:
  assumes "wf_cfg c" "file' s = Some p" "disk s p = Some f" "\<not> fail' s" "mode' s = Write"
    "0 \<le> n" "nat n \<le> length f"
  shows "writeNode c n nd s
         = (True, s\<lparr>disk := (disk s)(p \<mapsto> (if nat n < length f then f[nat n := nd] else f @ [nd]))\<rparr>)"
  using assms by (simp add: writeNode_def file_write_block)

declare searchNode_loop.simps [simp del]

declare addRecord_loop.simps [simp del]

declare split_loop.simps [simp del]

declare binarySearch_loop.simps [simp del]

subsection \<open>Search within a node\<close>

lemma searchNode_loop_spec:
  "0 \<le> loc \<Longrightarrow>
   0 \<le> searchNode_loop nd t loc \<and> searchNode_loop nd t loc \<le> loc \<and>
   (\<forall>j. searchNode_loop nd t loc < j \<and> j \<le> loc \<longrightarrow> strcmp t (key (records nd ! nat j)) < 0) \<and>
   (0 < searchNode_loop nd t loc \<longrightarrow>
      \<not> strcmp t (key (records nd ! nat (searchNode_loop nd t loc))) < 0)"
proof (induction nd t loc rule: searchNode_loop.induct)
  case (1 nd target location)
  show ?case
  proof (cases "location > 0 \<and> strcmp target (key (records nd ! nat location)) < 0")
    case True
    then have ih: "0 \<le> searchNode_loop nd target (location - 1) \<and>
        searchNode_loop nd target (location - 1) \<le> location - 1 \<and>
        (\<forall>j. searchNode_loop nd target (location - 1) < j \<and> j \<le> location - 1 \<longrightarrow>
               strcmp target (key (records nd ! nat j)) < 0) \<and>
        (0 < searchNode_loop nd target (location - 1) \<longrightarrow>
           \<not> strcmp target (key (records nd ! nat (searchNode_loop nd target (location - 1)))) < 0)"
      using "1.IH" by simp
    have eq: "searchNode_loop nd target location = searchNode_loop nd target (location - 1)"
      using True by (subst searchNode_loop.simps) simp
    have "\<And>j. searchNode_loop nd target (location - 1) < j \<and> j \<le> location \<Longrightarrow>
               strcmp target (key (records nd ! nat j)) < 0"
    proof -
      fix j assume j: "searchNode_loop nd target (location - 1) < j \<and> j \<le> location"
      show "strcmp target (key (records nd ! nat j)) < 0"
      proof (cases "j = location")
        case True then show ?thesis using \<open>location > 0 \<and> _\<close> by simp
      next
        case False
        then have "j \<le> location - 1" using j by simp
        then show ?thesis using ih j by blast
      qed
    qed
    then show ?thesis unfolding eq using ih by auto
  next
    case False
    then have eq: "searchNode_loop nd target location = location"
      by (subst searchNode_loop.simps) auto
    show ?thesis unfolding eq using False "1.prems" by auto
  qed
qed

lemma nrecs_nth: "0 \<le> j \<Longrightarrow> j < count nd \<Longrightarrow> nrecs nd ! nat j = records nd ! nat j"
  by (simp add: nrecs_def)

lemma searchNode_spec:
  assumes sh: "0 \<le> count nd" and sn: "searchNode nd t = (fnd, l)"
  shows "- 1 \<le> l \<and> l < count nd \<or> (l = - 1 \<and> count nd = 0)"
    and "fnd \<Longrightarrow> 0 \<le> l \<and> l < count nd \<and> ckey (nrecs nd ! nat l) = cstr t"
    and "\<not> fnd \<Longrightarrow> 0 \<le> l \<Longrightarrow> ckey (nrecs nd ! nat l) < cstr t"
    and "l + 1 < count nd \<Longrightarrow> cstr t < ckey (nrecs nd ! nat (l + 1))"
proof -
  consider (empty) "count nd = 0" | (low) "count nd \<noteq> 0" "strcmp t (key (records nd ! 0)) < 0"
    | (scan) "count nd \<noteq> 0" "\<not> strcmp t (key (records nd ! 0)) < 0" by blast
  then have "(- 1 \<le> l \<and> l < count nd \<or> (l = - 1 \<and> count nd = 0)) \<and>
    (fnd \<longrightarrow> 0 \<le> l \<and> l < count nd \<and> ckey (nrecs nd ! nat l) = cstr t) \<and>
    (\<not> fnd \<longrightarrow> 0 \<le> l \<longrightarrow> ckey (nrecs nd ! nat l) < cstr t) \<and>
    (l + 1 < count nd \<longrightarrow> cstr t < ckey (nrecs nd ! nat (l + 1)))"
  proof cases
    case empty
    then show ?thesis using sn by (auto simp: searchNode_def)
  next
    case low
    then have "fnd = False" "l = - 1" using sn by (auto simp: searchNode_def)
    moreover have "0 < count nd" using sh low by simp
    ultimately show ?thesis using low nrecs_nth[of 0 nd] by (auto simp: strcmp_less ckey_def)
  next
    case scan
    let ?l = "searchNode_loop nd t (count nd - 1)"
    have c1: "0 \<le> count nd - 1" using sh scan by simp
    note sp = searchNode_loop_spec[OF c1, of nd t]
    have l: "l = ?l" and f: "fnd = (strcmp t (key (records nd ! nat ?l)) = 0)"
      using sn scan by (auto simp: searchNode_def Let_def)
    have rng: "0 \<le> l" "l < count nd" using sp l by auto
    have nl: "\<not> strcmp t (key (records nd ! nat l)) < 0"
    proof (cases "0 < l")
      case True then show ?thesis using sp l by simp
    next
      case False then have "l = 0" using rng by simp
      then show ?thesis using scan by simp
    qed
    have k: "key (records nd ! nat l) = key (nrecs nd ! nat l)"
      using nrecs_nth[OF rng] by simp
    have d: "l + 1 < count nd \<longrightarrow> cstr t < ckey (nrecs nd ! nat (l + 1))"
    proof
      assume a: "l + 1 < count nd"
      then have "strcmp t (key (records nd ! nat (l + 1))) < 0" using sp l by simp
      moreover have "nrecs nd ! nat (l + 1) = records nd ! nat (l + 1)"
        using a rng by (intro nrecs_nth) simp_all
      ultimately show "cstr t < ckey (nrecs nd ! nat (l + 1))" by (simp add: strcmp_less ckey_def)
    qed
    show ?thesis using rng nl f l k d by (auto simp: strcmp_less strcmp_eq ckey_def)
  qed
  then show "- 1 \<le> l \<and> l < count nd \<or> (l = - 1 \<and> count nd = 0)"
    and "fnd \<Longrightarrow> 0 \<le> l \<and> l < count nd \<and> ckey (nrecs nd ! nat l) = cstr t"
    and "\<not> fnd \<Longrightarrow> 0 \<le> l \<Longrightarrow> ckey (nrecs nd ! nat l) < cstr t"
    and "l + 1 < count nd \<Longrightarrow> cstr t < ckey (nrecs nd ! nat (l + 1))"
    by blast+
qed

lemma searchNode_loop_cong:
  "0 \<le> loc \<Longrightarrow> (\<forall>j. 0 \<le> j \<and> j \<le> loc \<longrightarrow> records a ! nat j = records b ! nat j) \<Longrightarrow>
   searchNode_loop a t loc = searchNode_loop b t loc"
proof (induction a t loc rule: searchNode_loop.induct)
  case (1 nd target location)
  show ?case
  proof (cases "location > 0 \<and> strcmp target (key (records nd ! nat location)) < 0")
    case True
    then have "searchNode_loop nd target (location - 1) = searchNode_loop b target (location - 1)"
      using "1.IH" "1.prems" by simp
    moreover have "records nd ! nat location = records b ! nat location"
      using "1.prems" by simp
    ultimately show ?thesis using True
      by (subst searchNode_loop.simps, subst (2) searchNode_loop.simps) simp
  next
    case False
    moreover have "records nd ! nat location = records b ! nat location"
      using "1.prems" by simp
    ultimately show ?thesis
      by (subst searchNode_loop.simps, subst (2) searchNode_loop.simps) auto
  qed
qed

lemma searchNode_anode:
  assumes "0 \<le> count nd" "nat (count nd) \<le> length (records nd)"
  shows "searchNode nd t = searchNode (anode (nrecs nd)) t"
proof (cases "count nd = 0")
  case True
  then show ?thesis by (simp add: searchNode_def anode_def nrecs_def)
next
  case False
  then have pos: "0 < count nd" using assms by simp
  have cnt: "count (anode (nrecs nd)) = count nd" using assms by (simp add: anode_def nrecs_def)
  have recs: "\<And>j. 0 \<le> j \<Longrightarrow> j < count nd \<Longrightarrow>
                records nd ! nat j = records (anode (nrecs nd)) ! nat j"
    by (simp add: anode_def nrecs_def)
  have lp: "searchNode_loop nd t (count nd - 1) = searchNode_loop (anode (nrecs nd)) t (count nd - 1)"
    using pos recs by (intro searchNode_loop_cong) auto
  have rng: "0 \<le> searchNode_loop nd t (count nd - 1)" "searchNode_loop nd t (count nd - 1) < count nd"
    using searchNode_loop_spec[of "count nd - 1" nd t] pos by auto
  show ?thesis
    unfolding searchNode_def cnt lp[symmetric] Let_def
    using recs[of 0] recs[OF rng] pos by simp
qed

subsection \<open>Adding a record to a node\<close>

lemma addRecord_loop_spec:
  "J < length (records nd) \<Longrightarrow> J + 1 < length (branches nd) \<Longrightarrow>
   count (addRecord_loop nd (int J) (int L)) = count nd \<and>
   length (records (addRecord_loop nd (int J) (int L))) = length (records nd) \<and>
   length (branches (addRecord_loop nd (int J) (int L))) = length (branches nd) \<and>
   (\<forall>k < length (records nd). records (addRecord_loop nd (int J) (int L)) ! k =
        (if L < k \<and> k \<le> J then records nd ! (k - 1) else records nd ! k)) \<and>
   (\<forall>k < length (branches nd). branches (addRecord_loop nd (int J) (int L)) ! k =
        (if L + 1 < k \<and> k \<le> J + 1 then branches nd ! (k - 1) else branches nd ! k))"
proof (induction J arbitrary: nd)
  case 0
  have eq: "addRecord_loop nd (int 0) (int L) = nd"
    by (subst addRecord_loop.simps) simp
  show ?case unfolding eq by simp
next
  case (Suc J)
  show ?case
  proof (cases "L < Suc J")
    case False
    then have eq: "addRecord_loop nd (int (Suc J)) (int L) = nd"
      by (subst addRecord_loop.simps) simp
    show ?thesis unfolding eq using False by auto
  next
    case True
    let ?n = "nd\<lparr>records := (records nd)[Suc J := records nd ! J],
                   branches := (branches nd)[Suc (Suc J) := branches nd ! Suc J]\<rparr>"
    have eq: "addRecord_loop nd (int (Suc J)) (int L) = addRecord_loop ?n (int J) (int L)"
      using True by (subst addRecord_loop.simps) (simp add: nat_add_distrib)
    have ih: "count (addRecord_loop ?n (int J) (int L)) = count ?n \<and>
       length (records (addRecord_loop ?n (int J) (int L))) = length (records ?n) \<and>
       length (branches (addRecord_loop ?n (int J) (int L))) = length (branches ?n) \<and>
       (\<forall>k < length (records ?n). records (addRecord_loop ?n (int J) (int L)) ! k =
          (if L < k \<and> k \<le> J then records ?n ! (k - 1) else records ?n ! k)) \<and>
       (\<forall>k < length (branches ?n). branches (addRecord_loop ?n (int J) (int L)) ! k =
          (if L + 1 < k \<and> k \<le> J + 1 then branches ?n ! (k - 1) else branches ?n ! k))"
      using Suc.prems by (intro Suc.IH) simp_all
    have r: "\<forall>k < length (records nd). records (addRecord_loop ?n (int J) (int L)) ! k =
        (if L < k \<and> k \<le> Suc J then records nd ! (k - 1) else records nd ! k)"
    proof (intro allI impI)
      fix k assume k: "k < length (records nd)"
      then have e: "records (addRecord_loop ?n (int J) (int L)) ! k =
          (if L < k \<and> k \<le> J then records ?n ! (k - 1) else records ?n ! k)"
        using ih by simp
      show "records (addRecord_loop ?n (int J) (int L)) ! k =
        (if L < k \<and> k \<le> Suc J then records nd ! (k - 1) else records nd ! k)"
        unfolding e using k True by (auto simp: nth_list_update le_Suc_eq)
    qed
    have b: "\<forall>k < length (branches nd). branches (addRecord_loop ?n (int J) (int L)) ! k =
        (if L + 1 < k \<and> k \<le> Suc J + 1 then branches nd ! (k - 1) else branches nd ! k)"
    proof (intro allI impI)
      fix k assume k: "k < length (branches nd)"
      then have e: "branches (addRecord_loop ?n (int J) (int L)) ! k =
          (if L + 1 < k \<and> k \<le> J + 1 then branches ?n ! (k - 1) else branches ?n ! k)"
        using ih by simp
      show "branches (addRecord_loop ?n (int J) (int L)) ! k =
        (if L + 1 < k \<and> k \<le> Suc J + 1 then branches nd ! (k - 1) else branches nd ! k)"
        unfolding e using k True by (auto simp: nth_list_update le_Suc_eq)
    qed
    show ?thesis unfolding eq using ih r b by simp
  qed
qed

lemma addRecord_spec:
  assumes "0 \<le> loc" "loc \<le> count nd" "nat (count nd) < length (records nd)"
    "nat (count nd) + 1 < length (branches nd)"
  shows "count (addRecord r rb nd loc) = count nd + 1"
    and "length (records (addRecord r rb nd loc)) = length (records nd)"
    and "length (branches (addRecord r rb nd loc)) = length (branches nd)"
    and "nrecs (addRecord r rb nd loc) = ins_at (nat loc) r (nrecs nd)"
    and "nbrs (addRecord r rb nd loc) = ins_at (nat loc + 1) rb (nbrs nd)"
proof -
  let ?n = "addRecord_loop nd (count nd) loc"
  have c0: "0 \<le> count nd" using assms by simp
  have sp: "count ?n = count nd \<and>
   length (records ?n) = length (records nd) \<and>
   length (branches ?n) = length (branches nd) \<and>
   (\<forall>k < length (records nd). records ?n ! k =
        (if nat loc < k \<and> k \<le> nat (count nd) then records nd ! (k - 1) else records nd ! k)) \<and>
   (\<forall>k < length (branches nd). branches ?n ! k =
        (if nat loc + 1 < k \<and> k \<le> nat (count nd) + 1 then branches nd ! (k - 1) else branches nd ! k))"
    using addRecord_loop_spec[of "nat (count nd)" nd "nat loc"] assms c0 by simp
  show "count (addRecord r rb nd loc) = count nd + 1"
    and "length (records (addRecord r rb nd loc)) = length (records nd)"
    and "length (branches (addRecord r rb nd loc)) = length (branches nd)"
    using sp by (simp_all add: addRecord_def Let_def)
  have ll: "nat loc \<le> nat (count nd)" using assms by simp
  show "nrecs (addRecord r rb nd loc) = ins_at (nat loc) r (nrecs nd)"
  proof (rule nth_equalityI)
    show "length (nrecs (addRecord r rb nd loc)) = length (ins_at (nat loc) r (nrecs nd))"
      using sp assms c0 by (simp add: nrecs_def addRecord_def Let_def ins_at_def nat_add_distrib)
  next
    fix k assume "k < length (nrecs (addRecord r rb nd loc))"
    then have k: "k < nat (count nd) + 1" using sp assms c0
      by (simp add: nrecs_def addRecord_def Let_def nat_add_distrib)
    then have kl: "k < length (records nd)" using assms by simp
    show "nrecs (addRecord r rb nd loc) ! k = ins_at (nat loc) r (nrecs nd) ! k"
      using sp k kl ll assms c0
      by (auto simp: nrecs_def addRecord_def Let_def ins_at_def nat_add_distrib nth_list_update
          nth_append nth_Cons' min_def)
  qed
  show "nbrs (addRecord r rb nd loc) = ins_at (nat loc + 1) rb (nbrs nd)"
  proof (rule nth_equalityI)
    show "length (nbrs (addRecord r rb nd loc)) = length (ins_at (nat loc + 1) rb (nbrs nd))"
      using sp assms c0 by (simp add: nbrs_def addRecord_def Let_def ins_at_def nat_add_distrib)
  next
    fix k assume "k < length (nbrs (addRecord r rb nd loc))"
    then have k: "k < nat (count nd) + 2" using sp assms c0
      by (simp add: nbrs_def addRecord_def Let_def nat_add_distrib)
    then have kl: "k < length (branches nd)" using assms by simp
    have ar: "\<And>i::nat. 2 \<le> i \<Longrightarrow> Suc (i - 2) = i - Suc 0" by simp
    show "nbrs (addRecord r rb nd loc) ! k = ins_at (nat loc + 1) rb (nbrs nd) ! k"
      using sp k kl ll assms c0
      by (auto simp: nbrs_def addRecord_def Let_def ins_at_def nat_add_distrib nth_list_update
          nth_append nth_Cons' min_def ar)
  qed
qed

subsection \<open>Splitting a full node\<close>

lemma split_loop_spec:
  assumes w: "wf_cfg c"
  shows "nat (Mx c) = med + D \<Longrightarrow> n = D - d \<Longrightarrow> d \<le> D \<Longrightarrow>
   length (records rt) = med + D \<Longrightarrow> length (branches rt) = med + D + 1 \<Longrightarrow>
   count (split_loop c (int med) cur rt (int (med + d))) = count rt \<and>
   length (records (split_loop c (int med) cur rt (int (med + d)))) = med + D \<and>
   length (branches (split_loop c (int med) cur rt (int (med + d)))) = med + D + 1 \<and>
   (\<forall>k < med + D. records (split_loop c (int med) cur rt (int (med + d))) ! k =
        (if d \<le> k \<and> k < D then records cur ! (k + med) else records rt ! k)) \<and>
   (\<forall>k < med + D + 1. branches (split_loop c (int med) cur rt (int (med + d))) ! k =
        (if d + 1 \<le> k \<and> k < D + 1 then branches cur ! (k + med) else branches rt ! k))"
proof (induction n arbitrary: d rt)
  case 0
  then have dD: "d = D" by simp
  have Mi: "Mx c = int (med + D)" using 0 wf_Mx[OF w] by linarith
  have eq: "split_loop c (int med) cur rt (int (med + d)) = rt"
    using dD Mi by (subst split_loop.simps) (simp add: wf_to_int_MaxKeys[OF w])
  show ?case unfolding eq using 0 dD by auto
next
  case (Suc n)
  then have dD: "d < D" by simp
  have Mi: "Mx c = int (med + D)" using Suc.prems wf_Mx[OF w] by linarith
  let ?r = "rt\<lparr>records := (records rt)[d := records cur ! (med + d)],
                branches := (branches rt)[d + 1 := branches cur ! (med + d + 1)]\<rparr>"
  have eq: "split_loop c (int med) cur rt (int (med + d)) = split_loop c (int med) cur ?r (int (med + Suc d))"
    using dD Mi
    by (subst split_loop.simps) (simp add: wf_to_int_MaxKeys[OF w] nat_add_distrib add.commute)
  have ih: "count (split_loop c (int med) cur ?r (int (med + Suc d))) = count ?r \<and>
   length (records (split_loop c (int med) cur ?r (int (med + Suc d)))) = med + D \<and>
   length (branches (split_loop c (int med) cur ?r (int (med + Suc d)))) = med + D + 1 \<and>
   (\<forall>k < med + D. records (split_loop c (int med) cur ?r (int (med + Suc d))) ! k =
        (if Suc d \<le> k \<and> k < D then records cur ! (k + med) else records ?r ! k)) \<and>
   (\<forall>k < med + D + 1. branches (split_loop c (int med) cur ?r (int (med + Suc d))) ! k =
        (if Suc d + 1 \<le> k \<and> k < D + 1 then branches cur ! (k + med) else branches ?r ! k))"
    using Suc.prems dD by (intro Suc.IH) simp_all
  have r: "\<forall>k < med + D. records (split_loop c (int med) cur ?r (int (med + Suc d))) ! k =
        (if d \<le> k \<and> k < D then records cur ! (k + med) else records rt ! k)"
  proof (intro allI impI)
    fix k assume k: "k < med + D"
    then have e: "records (split_loop c (int med) cur ?r (int (med + Suc d))) ! k =
        (if Suc d \<le> k \<and> k < D then records cur ! (k + med) else records ?r ! k)"
      using ih by simp
    show "records (split_loop c (int med) cur ?r (int (med + Suc d))) ! k =
        (if d \<le> k \<and> k < D then records cur ! (k + med) else records rt ! k)"
      unfolding e using k dD Suc.prems by (auto simp: nth_list_update add.commute)
  qed
  have b: "\<forall>k < med + D + 1. branches (split_loop c (int med) cur ?r (int (med + Suc d))) ! k =
        (if d + 1 \<le> k \<and> k < D + 1 then branches cur ! (k + med) else branches rt ! k)"
  proof (intro allI impI)
    fix k assume k: "k < med + D + 1"
    then have e: "branches (split_loop c (int med) cur ?r (int (med + Suc d))) ! k =
        (if Suc d + 1 \<le> k \<and> k < D + 1 then branches cur ! (k + med) else branches ?r ! k)"
      using ih by simp
    show "branches (split_loop c (int med) cur ?r (int (med + Suc d))) ! k =
        (if d + 1 \<le> k \<and> k < D + 1 then branches cur ! (k + med) else branches rt ! k)"
      unfolding e using k dD Suc.prems by (auto simp: nth_list_update add.commute)
  qed
  show ?case unfolding eq using ih r b by simp
qed

lemma length_ins_at [simp]: "length (ins_at i x xs) = Suc (length xs)"
  by (simp add: ins_at_def)

lemma ins_at_take_take: "i \<le> n \<Longrightarrow> take n (ins_at i x (take n xs)) = take n (ins_at i x xs)"
  by (simp add: ins_at_def min_def take_Cons' drop_take)

lemma ins_at_take_nth: "i \<le> n \<Longrightarrow> n \<le> length xs \<Longrightarrow> ins_at i x (take n xs) ! n = ins_at i x xs ! n"
  by (auto simp add: ins_at_def nth_append nth_Cons' min_def)

lemma ins_at_drop_Suc: "i \<le> n \<Longrightarrow> drop (Suc n) (ins_at i x xs) = drop n xs"
  by (simp add: ins_at_def min_def drop_Cons')

lemma ins_at_take_low: "n \<le> i \<Longrightarrow> i \<le> length xs \<Longrightarrow> take n (ins_at i x xs) = take n xs"
  by (simp add: ins_at_def min_def take_Cons')

lemma ins_at_nth_low: "n < i \<Longrightarrow> i \<le> length xs \<Longrightarrow> ins_at i x xs ! n = xs ! n"
  by (simp add: ins_at_def nth_append)

lemma ins_at_drop_low: "n \<le> i \<Longrightarrow> i \<le> length xs \<Longrightarrow> drop n (ins_at i x xs) = ins_at (i - n) x (drop n xs)"
  by (simp add: ins_at_def min_def drop_take)

lemma shape_lengths: "shape c nd \<Longrightarrow> length (records nd) = nat (Mx c) \<and> length (branches nd) = nat (Mx c) + 1
   \<and> 0 \<le> count nd \<and> count nd \<le> Mx c"
  by (simp add: shape_def)

lemma Node0_shape: "wf_cfg c \<Longrightarrow> shape c (Node0 c)"
  using wf_Mx[of c] by (simp add: shape_def Node0_def wf_unat_MaxKeys wf_unat_Order)

lemma readNode_simp:
  assumes "wf_cfg c" "file' s = Some p" "disk s p = Some f" "\<not> fail' s" "0 \<le> n" "nat n < length f"
  shows "snd (readNode c n s) = s\<lparr>currentNode' := f ! nat n\<rparr>"
  using readNode_ok[OF assms] by simp

lemma writeNode_simp:
  assumes "wf_cfg c" "file' s = Some p" "disk s p = Some f" "\<not> fail' s" "mode' s = Write"
    "0 \<le> n" "nat n \<le> length f"
  shows "snd (writeNode c n nd s)
         = s\<lparr>disk := (disk s)(p \<mapsto> (if nat n < length f then f[nat n := nd] else f @ [nd]))\<rparr>"
  using writeNode_ok[OF assms] by simp

lemma split_state:
  assumes w: "wf_cfg c"
    and st: "file' s = Some p" "disk s p = Some f" "\<not> fail' s" "mode' s = Write"
    and n: "numNodes' s = n" "0 \<le> n" "length f = nat n + 1"
    and q: "0 < q" "q \<le> n"
    and cnt: "count (f ! nat q) = Mx c"
    and loc: "- 1 \<le> loc" "loc < Mx c"
  shows "split c r rb q loc s =
    (let cur = f ! nat q;
         median = (if loc < Mx c div 2 then Mx c div 2 else Mx c div 2 + 1);
         rt = (split_loop c median cur (Node0 c) median)\<lparr>count := Mx c - median\<rparr>;
         cur2 = cur\<lparr>count := median\<rparr>;
         cur3 = (if loc < Mx c div 2 then addRecord r rb cur2 (loc + 1) else cur2);
         rt3 = (if loc < Mx c div 2 then rt else addRecord r rb rt (loc - median + 1));
         L = cur3\<lparr>count := count cur3 - 1\<rparr>;
         R = rt3\<lparr>branches := (branches rt3)[0 := branches cur3 ! nat (count cur3)]\<rparr>
     in ((records cur3 ! nat (count cur3 - 1), n + 1),
         s\<lparr>disk := (disk s)(p \<mapsto> f[nat q := L] @ [R]), numNodes' := n + 1, currentNode' := L\<rparr>))"
proof -
  have qn: "0 \<le> q" "nat q < length f" "nat q \<le> length f" using q n by auto
  have med: "0 \<le> Mx c div 2" "Mx c div 2 + 1 \<le> Mx c" "Mx c div 2 \<le> Mx c" using wf_Mx[OF w] by auto
  have r1: "snd (readNode c q s) = s\<lparr>currentNode' := f ! nat q\<rparr>"
    using readNode_simp[OF w st(1,2,3) qn(1,2)] .
  have w1: "\<And>nd s'. file' s' = Some p \<Longrightarrow> disk s' p = Some f \<Longrightarrow> \<not> fail' s' \<Longrightarrow> mode' s' = Write \<Longrightarrow>
      snd (writeNode c q nd s') = s'\<lparr>disk := (disk s')(p \<mapsto> f[nat q := nd])\<rparr>"
    using writeNode_simp[OF w _ _ _ _ qn(1,3)] qn by simp
  have w2: "\<And>nd s' f'. file' s' = Some p \<Longrightarrow> disk s' p = Some f' \<Longrightarrow> length f' = nat n + 1 \<Longrightarrow>
      \<not> fail' s' \<Longrightarrow> mode' s' = Write \<Longrightarrow>
      snd (writeNode c (n + 1) nd s') = s'\<lparr>disk := (disk s')(p \<mapsto> f' @ [nd])\<rparr>"
  proof -
    fix nd and s' :: BTree and f'
    assume a: "file' s' = Some p" "disk s' p = Some f'" "length f' = nat n + 1" "\<not> fail' s'" "mode' s' = Write"
    have "0 \<le> n + 1" "nat (n + 1) \<le> length f'" using n a by auto
    from writeNode_simp[OF w a(1,2,4,5) this] show "snd (writeNode c (n + 1) nd s') = s'\<lparr>disk := (disk s')(p \<mapsto> f' @ [nd])\<rparr>"
      using a n by (simp add: nat_add_distrib)
  qed
  show ?thesis
  proof (cases "loc < Mx c div 2")
    case True
    show ?thesis
      unfolding split_def Let_def r1
      using True st n med
      by (simp add: wf_to_int_MinKeys[OF w] wf_to_int_diff[OF w] w1 w2)
  next
    case False
    show ?thesis
      unfolding split_def Let_def r1
      using False st n med
      by (simp add: wf_to_int_MinKeys[OF w] wf_to_int_MinKeys1[OF w] wf_to_int_diff[OF w] w1 w2)
  qed
qed

lemma split_right_half:
  assumes w: "wf_cfg c" and sh: "shape c cur" and full: "count cur = Mx c"
    and med: "med \<le> nat (Mx c)"
  defines "rt \<equiv> (split_loop c (int med) cur (Node0 c) (int med))\<lparr>count := Mx c - int med\<rparr>"
  shows "shape c rt" "nrecs rt = drop med (nrecs cur)" "tl (nbrs rt) = drop (med + 1) (nbrs cur)"
    "nbrs rt \<noteq> []"
proof -
  define M where "M = nat (Mx c)"
  define D where "D = M - med"
  have MD: "nat (Mx c) = med + D" using med by (simp add: D_def M_def)
  have Mi: "Mx c = int med + int D" using MD wf_Mx[OF w] by linarith
  have l0: "length (records (Node0 c)) = med + D" "length (branches (Node0 c)) = med + D + 1"
    using Node0_shape[OF w] MD by (simp_all add: shape_def)
  note sp = split_loop_spec[OF w MD refl le0 l0, of cur, simplified]
  have lc: "length (records cur) = med + D" "length (branches cur) = med + D + 1"
    using sh MD by (simp_all add: shape_def)
  show "shape c rt"
    using sp MD Mi by (simp add: shape_def rt_def)
  have cr: "nat (count rt) = D" "nat (count cur) = med + D" using Mi full by (simp_all add: rt_def)
  show "nrecs rt = drop med (nrecs cur)"
  proof (rule nth_equalityI)
    show "length (nrecs rt) = length (drop med (nrecs cur))"
      using sp lc cr by (simp add: nrecs_def rt_def)
  next
    fix k assume "k < length (nrecs rt)"
    then have k: "k < D" using sp cr by (simp add: nrecs_def rt_def)
    then show "nrecs rt ! k = drop med (nrecs cur) ! k"
      using sp lc cr by (simp add: nrecs_def rt_def add.commute)
  qed
  show "tl (nbrs rt) = drop (med + 1) (nbrs cur)"
  proof (rule nth_equalityI)
    show "length (tl (nbrs rt)) = length (drop (med + 1) (nbrs cur))"
      using sp lc cr by (simp add: nbrs_def rt_def)
  next
    fix k assume "k < length (tl (nbrs rt))"
    then have k: "k < D" using sp cr by (simp add: nbrs_def rt_def)
    then show "tl (nbrs rt) ! k = drop (med + 1) (nbrs cur) ! k"
      using sp lc cr by (simp add: nbrs_def rt_def nth_tl add.commute)
  qed
  show "nbrs rt \<noteq> []" using sp by (auto simp: nbrs_def rt_def)
qed

lemma ins_at_update0: "0 < i \<Longrightarrow> xs \<noteq> [] \<Longrightarrow> (ins_at i x xs)[0 := y] = ins_at i x (y # tl xs)"
  by (cases xs; cases i) (simp_all add: ins_at_def)

lemma update0_tl: "xs \<noteq> [] \<Longrightarrow> xs[0 := y] = y # tl xs"
  by (cases xs) simp_all

lemma nrecs_count_update:
  "0 \<le> k \<Longrightarrow> k \<le> count nd \<Longrightarrow> nrecs (nd\<lparr>count := k\<rparr>) = take (nat k) (nrecs nd)"
  by (simp add: nrecs_def min_def)

lemma nbrs_count_update:
  "0 \<le> k \<Longrightarrow> k \<le> count nd \<Longrightarrow> nbrs (nd\<lparr>count := k\<rparr>) = take (nat k + 1) (nbrs nd)"
  by (simp add: nbrs_def min_def)

lemma nrecs_branches_update [simp]: "nrecs (nd\<lparr>branches := b\<rparr>) = nrecs nd"
  by (simp add: nrecs_def)

lemma nbrs_update0:
  "branches nd \<noteq> [] \<Longrightarrow> nbrs (nd\<lparr>branches := (branches nd)[0 := y]\<rparr>) = y # tl (nbrs nd)"
  by (cases "branches nd") (simp_all add: nbrs_def)

lemma split_nodes_low:
  fixes r :: Record and rb :: int
  assumes w: "wf_cfg c" and sh: "shape c cur" and full: "count cur = Mx c"
    and loc: "- 1 \<le> loc" "loc < Mx c div 2"
  defines "m \<equiv> nat (Mx c div 2)"
  defines "rs2 \<equiv> ins_at (nat (loc + 1)) r (nrecs cur)"
    and "bs2 \<equiv> ins_at (nat (loc + 1) + 1) rb (nbrs cur)"
  defines "rt \<equiv> (split_loop c (Mx c div 2) cur (Node0 c) (Mx c div 2))\<lparr>count := Mx c - Mx c div 2\<rparr>"
    and "cur3 \<equiv> addRecord r rb (cur\<lparr>count := Mx c div 2\<rparr>) (loc + 1)"
  defines "L \<equiv> cur3\<lparr>count := count cur3 - 1\<rparr>"
    and "R \<equiv> rt\<lparr>branches := (branches rt)[0 := branches cur3 ! nat (count cur3)]\<rparr>"
  shows "records cur3 ! nat (count cur3 - 1) = rs2 ! m"
    "shape c L" "shape c R" "nrecs L = take m rs2" "nbrs L = take (m + 1) bs2"
    "nrecs R = drop (m + 1) rs2" "nbrs R = drop (m + 1) bs2"
proof -
  define M where "M = nat (Mx c)"
  define ci where "ci = nat (loc + 1)"
  have M: "2 \<le> Mx c" "Mx c = int M" using wf_Mx[OF w] by (simp_all add: M_def)
  have m: "Mx c div 2 = int m" "m < M" "0 < m" "ci \<le> m"
    using M loc by (auto simp: m_def ci_def)
  have cin: "nat (loc + 1) = ci" by (simp add: ci_def)
  have len: "length (records cur) = M" "length (branches cur) = M + 1"
    using sh by (simp_all add: shape_def M_def)
  have rs: "nrecs cur = records cur" "nbrs cur = branches cur"
    using len full M by (simp_all add: nrecs_def nbrs_def)
  have rt: "shape c rt" "nrecs rt = drop m (nrecs cur)" "tl (nbrs rt) = drop (m + 1) (nbrs cur)"
    "nbrs rt \<noteq> []"
    using split_right_half[OF w sh full, of m] m M unfolding rt_def by simp_all
  let ?cur2 = "cur\<lparr>count := Mx c div 2\<rparr>"
  have c2: "nrecs ?cur2 = take m (nrecs cur)" "nbrs ?cur2 = take (m + 1) (nbrs cur)"
    using m M full by (simp_all add: nrecs_count_update nbrs_count_update)
  have pre: "0 \<le> loc + 1" "loc + 1 \<le> count ?cur2" "nat (count ?cur2) < length (records ?cur2)"
    "nat (count ?cur2) + 1 < length (branches ?cur2)"
    using m M len loc by simp_all
  note ar = addRecord_spec[OF pre, of r rb, folded cur3_def]
  have c3: "count cur3 = int m + 1" "length (records cur3) = M" "length (branches cur3) = M + 1"
    "nrecs cur3 = ins_at ci r (take m (nrecs cur))"
    "nbrs cur3 = ins_at (ci + 1) rb (take (m + 1) (nbrs cur))"
    using ar m len c2 cin by simp_all
  have lrs: "length (nrecs cur) = M" "length (nbrs cur) = M + 1" using rs len by simp_all
  have r3: "records cur3 ! m = nrecs cur3 ! m" "branches cur3 ! (m + 1) = nbrs cur3 ! (m + 1)"
    using c3(1) by (simp_all add: nrecs_def nbrs_def nat_add_distrib)
  show "records cur3 ! nat (count cur3 - 1) = rs2 ! m"
    using c3 r3 m lrs by (simp add: rs2_def cin ins_at_take_nth)
  show "shape c L" using c3 M m by (simp add: L_def shape_def)
  show "shape c R" using rt(1) by (simp add: R_def shape_def)
  have "nrecs L = take m (nrecs cur3)"
    unfolding L_def using c3 by (simp add: nrecs_count_update)
  then show "nrecs L = take m rs2"
    using c3 m by (simp add: rs2_def cin ins_at_take_take)
  have "nbrs L = take (m + 1) (nbrs cur3)"
    unfolding L_def using c3 by (simp add: nbrs_count_update)
  then show "nbrs L = take (m + 1) bs2"
    using c3 m ins_at_take_take[of "ci + 1" "m + 1" rb "nbrs cur"]
    by (simp add: bs2_def cin)
  show "nrecs R = drop (m + 1) rs2"
    using rt m by (simp add: R_def rs2_def cin ins_at_drop_Suc)
  have brt: "branches rt \<noteq> []" "0 \<le> count rt" using rt(1) by (auto simp: shape_def)
  have x: "branches cur3 ! nat (count cur3) = bs2 ! (m + 1)"
    using c3 r3 m lrs ins_at_take_nth[of "ci + 1" "m + 1" "nbrs cur" rb]
    by (simp add: bs2_def cin nat_add_distrib)
  have "nbrs R = bs2 ! (m + 1) # tl (nbrs rt)"
    unfolding R_def x[symmetric] using brt(1) by (rule nbrs_update0)
  also have "tl (nbrs rt) = drop (Suc (m + 1)) bs2"
    using rt(3) m ins_at_drop_Suc[of "ci + 1" "m + 1" rb "nbrs cur"] by (simp add: bs2_def cin)
  also have "bs2 ! (m + 1) # drop (Suc (m + 1)) bs2 = drop (m + 1) bs2"
    using m lrs by (intro Cons_nth_drop_Suc) (simp add: bs2_def)
  finally show "nbrs R = drop (m + 1) bs2" .
qed

lemma ins_at_not_Nil [simp]: "ins_at i x xs \<noteq> []"
  by (simp add: ins_at_def)

lemma split_nodes_high:
  fixes r :: Record and rb :: int
  assumes w: "wf_cfg c" and sh: "shape c cur" and full: "count cur = Mx c"
    and loc: "Mx c div 2 \<le> loc" "loc < Mx c"
  defines "m \<equiv> nat (Mx c div 2)"
  defines "rs2 \<equiv> ins_at (nat (loc + 1)) r (nrecs cur)"
    and "bs2 \<equiv> ins_at (nat (loc + 1) + 1) rb (nbrs cur)"
  defines "rt \<equiv> (split_loop c (Mx c div 2 + 1) cur (Node0 c) (Mx c div 2 + 1))\<lparr>count := Mx c - (Mx c div 2 + 1)\<rparr>"
    and "cur3 \<equiv> cur\<lparr>count := Mx c div 2 + 1\<rparr>"
  defines "rt3 \<equiv> addRecord r rb rt (loc - (Mx c div 2 + 1) + 1)"
  defines "L \<equiv> cur3\<lparr>count := count cur3 - 1\<rparr>"
    and "R \<equiv> rt3\<lparr>branches := (branches rt3)[0 := branches cur3 ! nat (count cur3)]\<rparr>"
  shows "records cur3 ! nat (count cur3 - 1) = rs2 ! m"
    "shape c L" "shape c R" "nrecs L = take m rs2" "nbrs L = take (m + 1) bs2"
    "nrecs R = drop (m + 1) rs2" "nbrs R = drop (m + 1) bs2"
proof -
  define M where "M = nat (Mx c)"
  define ci where "ci = nat (loc + 1)"
  have M: "2 \<le> Mx c" "Mx c = int M" using wf_Mx[OF w] by (simp_all add: M_def)
  have m: "Mx c div 2 = int m" "m + 1 \<le> M" "0 < m" "m + 1 \<le> ci" "ci \<le> M"
    using M loc by (auto simp: m_def ci_def)
  have cin: "nat (loc + 1) = ci" by (simp add: ci_def)
  define k where "k = ci - (m + 1)"
  have loc_e: "loc - (Mx c div 2 + 1) + 1 = int k"
    using m loc by (simp add: ci_def k_def)
  have kM: "int k \<le> int M - (int m + 1)" "k + (m + 1) = ci" using m by (simp_all add: k_def)
  have len: "length (records cur) = M" "length (branches cur) = M + 1"
    using sh by (simp_all add: shape_def M_def)
  have rs: "nrecs cur = records cur" "nbrs cur = branches cur"
    using len full M by (simp_all add: nrecs_def nbrs_def)
  have lrs: "length (nrecs cur) = M" "length (nbrs cur) = M + 1" using rs len by simp_all
  have e1: "Mx c div 2 + 1 = int (m + 1)" using m by simp
  have rte: "rt = (split_loop c (int (m + 1)) cur (Node0 c) (int (m + 1)))\<lparr>count := Mx c - int (m + 1)\<rparr>"
    by (simp only: rt_def e1)
  have m1: "m + 1 \<le> nat (Mx c)" using m M by simp
  have rt: "shape c rt" "nrecs rt = drop (m + 1) (nrecs cur)" "tl (nbrs rt) = drop (m + 1 + 1) (nbrs cur)"
    "nbrs rt \<noteq> []"
    unfolding rte by (rule split_right_half[OF w sh full m1])+
  have crt: "count rt = int M - (int m + 1)" using m M by (simp add: rte)
  have lrt: "length (records rt) = M" "length (branches rt) = M + 1"
    using rt(1) by (simp_all add: shape_def M_def)
  have rt3e: "rt3 = addRecord r rb rt (int k)" by (simp only: rt3_def loc_e)
  have pre: "0 \<le> int k" "int k \<le> count rt"
    "nat (count rt) < length (records rt)" "nat (count rt) + 1 < length (branches rt)"
    using kM m crt lrt by simp_all
  note ar = addRecord_spec[OF pre, of r rb, folded rt3e]
  have r3: "length (records rt3) = M" "length (branches rt3) = M + 1" "count rt3 = int M - int m"
    "nrecs rt3 = ins_at k r (drop (m + 1) (nrecs cur))"
    "nbrs rt3 = ins_at (k + 1) rb (nbrs rt)"
    using ar lrt crt rt(2) by simp_all
  have c3: "count cur3 = int m + 1" using m by (simp add: cur3_def)
  show "records cur3 ! nat (count cur3 - 1) = rs2 ! m"
    using c3 m lrs rs by (simp add: rs2_def cin ins_at_nth_low cur3_def)
  show "shape c L" using sh M m by (simp add: L_def cur3_def shape_def)
  show "shape c R" using r3 M m by (simp add: R_def shape_def)
  show "nrecs L = take m rs2"
    using m M full lrs by (simp add: L_def cur3_def nrecs_count_update rs2_def cin ins_at_take_low)
  show "nbrs L = take (m + 1) bs2"
    using m M full lrs ins_at_take_low[of "m + 1" "ci + 1" "nbrs cur" rb]
    by (simp add: L_def cur3_def nbrs_count_update bs2_def cin)
  show "nrecs R = drop (m + 1) rs2"
    using r3 m lrs ins_at_drop_low[of "m + 1" ci "nrecs cur" r] by (simp add: R_def rs2_def cin k_def)
  have b3: "branches rt3 \<noteq> []" using r3 by auto
  have x: "branches cur3 ! nat (count cur3) = nbrs cur ! (m + 1)"
    using c3 rs by (simp add: cur3_def nat_add_distrib)
  have "nbrs R = nbrs cur ! (m + 1) # tl (nbrs rt3)"
    unfolding R_def x[symmetric] using b3 by (rule nbrs_update0)
  also have "\<dots> = (nbrs rt3)[0 := nbrs cur ! (m + 1)]"
    unfolding r3 by (subst update0_tl) simp_all
  also have "\<dots> = ins_at (k + 1) rb (nbrs cur ! (m + 1) # tl (nbrs rt))"
    unfolding r3 using rt(4) by (intro ins_at_update0) simp_all
  also have "nbrs cur ! (m + 1) # tl (nbrs rt) = drop (m + 1) (nbrs cur)"
    unfolding rt(3) using m lrs by (simp add: Cons_nth_drop_Suc)
  also have "ins_at (k + 1) rb (drop (m + 1) (nbrs cur)) = drop (m + 1) bs2"
    using m lrs ins_at_drop_low[of "m + 1" "ci + 1" "nbrs cur" rb] Suc_diff_le[of "Suc m" ci]
    by (simp add: bs2_def cin k_def)
  finally show "nbrs R = drop (m + 1) bs2" .
qed

lemma split_spec:
  fixes r :: Record and rb :: int
  assumes w: "wf_cfg c"
    and st: "file' s = Some p" "disk s p = Some f" "\<not> fail' s" "mode' s = Write"
    and n: "numNodes' s = n" "0 \<le> n" "length f = nat n + 1"
    and q: "0 < q" "q \<le> n"
    and sh: "shape c (f ! nat q)"
    and cnt: "count (f ! nat q) = Mx c"
    and loc: "- 1 \<le> loc" "loc < Mx c"
  defines "m \<equiv> nat (Mx c div 2)"
  defines "rs2 \<equiv> ins_at (nat (loc + 1)) r (nrecs (f ! nat q))"
    and "bs2 \<equiv> ins_at (nat (loc + 1) + 1) rb (nbrs (f ! nat q))"
  shows "\<exists>L R. split c r rb q loc s =
            ((rs2 ! m, n + 1),
             s\<lparr>disk := (disk s)(p \<mapsto> f[nat q := L] @ [R]), numNodes' := n + 1, currentNode' := L\<rparr>)
          \<and> shape c L \<and> shape c R \<and> nrecs L = take m rs2 \<and> nbrs L = take (m + 1) bs2
          \<and> nrecs R = drop (m + 1) rs2 \<and> nbrs R = drop (m + 1) bs2"
proof (cases "loc < Mx c div 2")
  case True
  let ?cur = "f ! nat q"
  let ?rt = "(split_loop c (Mx c div 2) ?cur (Node0 c) (Mx c div 2))\<lparr>count := Mx c - Mx c div 2\<rparr>"
  let ?cur3 = "addRecord r rb (?cur\<lparr>count := Mx c div 2\<rparr>) (loc + 1)"
  let ?L = "?cur3\<lparr>count := count ?cur3 - 1\<rparr>"
  let ?R = "?rt\<lparr>branches := (branches ?rt)[0 := branches ?cur3 ! nat (count ?cur3)]\<rparr>"
  have nodes: "records ?cur3 ! nat (count ?cur3 - 1) = rs2 ! m"
    "shape c ?L" "shape c ?R" "nrecs ?L = take m rs2" "nbrs ?L = take (m + 1) bs2"
    "nrecs ?R = drop (m + 1) rs2" "nbrs ?R = drop (m + 1) bs2"
    unfolding m_def rs2_def bs2_def by (rule split_nodes_low[OF w sh cnt loc(1) True])+
  have "split c r rb q loc s =
            ((rs2 ! m, n + 1),
             s\<lparr>disk := (disk s)(p \<mapsto> f[nat q := ?L] @ [?R]), numNodes' := n + 1, currentNode' := ?L\<rparr>)"
    unfolding split_state[OF w st n q cnt loc] Let_def nodes(1)[symmetric] using True by simp
  then show ?thesis using nodes(2-) by blast
next
  case False
  then have hi: "Mx c div 2 \<le> loc" by simp
  let ?cur = "f ! nat q"
  let ?rt = "(split_loop c (Mx c div 2 + 1) ?cur (Node0 c) (Mx c div 2 + 1))\<lparr>count := Mx c - (Mx c div 2 + 1)\<rparr>"
  let ?cur3 = "?cur\<lparr>count := Mx c div 2 + 1\<rparr>"
  let ?rt3 = "addRecord r rb ?rt (loc - (Mx c div 2 + 1) + 1)"
  let ?L = "?cur3\<lparr>count := count ?cur3 - 1\<rparr>"
  let ?R = "?rt3\<lparr>branches := (branches ?rt3)[0 := branches ?cur3 ! nat (count ?cur3)]\<rparr>"
  have nodes: "records ?cur3 ! nat (count ?cur3 - 1) = rs2 ! m"
    "shape c ?L" "shape c ?R" "nrecs ?L = take m rs2" "nbrs ?L = take (m + 1) bs2"
    "nrecs ?R = drop (m + 1) rs2" "nbrs ?R = drop (m + 1) bs2"
    unfolding m_def rs2_def bs2_def by (rule split_nodes_high[OF w sh cnt hi loc(2)])+
  have "split c r rb q loc s =
            ((rs2 ! m, n + 1),
             s\<lparr>disk := (disk s)(p \<mapsto> f[nat q := ?L] @ [?R]), numNodes' := n + 1, currentNode' := ?L\<rparr>)"
    unfolding split_state[OF w st n q cnt loc] Let_def nodes(1)[symmetric] using False by simp
  then show ?thesis using nodes(2-) by blast
qed

section \<open>Trees in the file\<close>

subsection \<open>Representation of a tree in the file\<close>

lemma rep_Nd_iff:
  "rep c f (Nd i rs ts) p \<longleftrightarrow>
     (p = i \<and> 0 < i \<and> nat i < length f \<and> shape c (f ! nat i) \<and> nrecs (f ! nat i) = rs \<and>
      list_all2 (rep c f) ts (nbrs (f ! nat i)))"
proof -
  have "shape c (f ! nat i) \<Longrightarrow> nrecs (f ! nat i) = rs \<Longrightarrow> length (nbrs (f ! nat i)) = length rs + 1"
    by (auto simp: shape_def nrecs_def nbrs_def)
  then show ?thesis by (auto simp: list_all2_conv_all_nth)
qed

lemma rep_count:
  "shape c nd \<Longrightarrow> nrecs nd = rs \<Longrightarrow> count nd = int (length rs)"
  by (auto simp: shape_def nrecs_def)

lemma rep_frame:
  "rep c f t p \<Longrightarrow> (\<forall>j \<in> ids t. f' ! nat j = f ! nat j) \<Longrightarrow> length f \<le> length f' \<Longrightarrow> rep c f' t p"
proof (induction t arbitrary: p)
  case Lf
  then show ?case by simp
next
  case (Nd i rs ts)
  have same: "f' ! nat i = f ! nat i" using Nd.prems by simp
  have ch: "\<And>j. j < length ts \<Longrightarrow> rep c f' (ts ! j) (nbrs (f ! nat i) ! j)"
  proof -
    fix j assume j: "j < length ts"
    then have "ts ! j \<in> set ts" by simp
    moreover have "rep c f (ts ! j) (nbrs (f ! nat i) ! j)" using Nd.prems j by simp
    moreover have "\<forall>k \<in> ids (ts ! j). f' ! nat k = f ! nat k" using Nd.prems j by auto
    ultimately show "rep c f' (ts ! j) (nbrs (f ! nat i) ! j)" using Nd.IH Nd.prems(3) by blast
  qed
  show ?case using Nd.prems ch by (simp add: same)
qed

lemma rid_rep: "rep c f t p \<Longrightarrow> p = rid t"
  by (cases t) auto

lemma ids_pos: "rep c f t p \<Longrightarrow> \<forall>j \<in> ids t. 0 < j"
proof (induction t arbitrary: p)
  case Lf then show ?case by simp
next
  case (Nd i rs ts)
  have "\<And>t. t \<in> set ts \<Longrightarrow> \<forall>j \<in> ids t. 0 < j"
  proof -
    fix t assume "t \<in> set ts"
    then obtain j where "j < length ts" "t = ts ! j" by (auto simp: in_set_conv_nth)
    then show "\<forall>j \<in> ids t. 0 < j" using Nd.IH[of t] Nd.prems by auto
  qed
  then show ?case using Nd.prems by auto
qed

subsection \<open>Node identifiers of the abstract insertion\<close>

lemma set_ins_at: "i \<le> length xs \<Longrightarrow> set (ins_at i x xs) = insert x (set xs)"
proof -
  assume "i \<le> length xs"
  have "set (take i xs) \<union> set (drop i xs) = set xs" by (metis append_take_drop_id set_append)
  then show ?thesis by (auto simp: ins_at_def)
qed

lemma set_ins_at_sub: "set (ins_at i x xs) \<subseteq> insert x (set xs)"
  by (auto simp: ins_at_def dest: in_set_takeD in_set_dropD)

lemma ains_Nd_cases [case_names found oob dup stay room full]:
  obtains
    (found) l where "searchNode (anode rs) (key r) = (True, l)" "ains c r (Nd i rs ts) n = Dup"
  | (oob) l where "searchNode (anode rs) (key r) = (False, l)" "\<not> nat (l + 1) < length ts"
      "ains c r (Nd i rs ts) n = Dup"
  | (dup) l where "searchNode (anode rs) (key r) = (False, l)" "nat (l + 1) < length ts"
      "ains c r (ts ! nat (l + 1)) n = Dup" "ains c r (Nd i rs ts) n = Dup"
  | (stay) l t' n' where "searchNode (anode rs) (key r) = (False, l)" "nat (l + 1) < length ts"
      "ains c r (ts ! nat (l + 1)) n = Stay t' n'"
      "ains c r (Nd i rs ts) n = Stay (Nd i rs (ts[nat (l + 1) := t'])) n'"
  | (room) l t' r' rt n' where "searchNode (anode rs) (key r) = (False, l)" "nat (l + 1) < length ts"
      "ains c r (ts ! nat (l + 1)) n = Up t' r' rt n'" "int (length rs) < Mx c"
      "ains c r (Nd i rs ts) n =
         Stay (Nd i (ins_at (nat (l + 1)) r' rs) (ins_at (nat (l + 1) + 1) rt (ts[nat (l + 1) := t']))) n'"
  | (full) l t' r' rt n' where "searchNode (anode rs) (key r) = (False, l)" "nat (l + 1) < length ts"
      "ains c r (ts ! nat (l + 1)) n = Up t' r' rt n'" "\<not> int (length rs) < Mx c"
      "ains c r (Nd i rs ts) n =
         Up (Nd i (take (nat (Mx c div 2)) (ins_at (nat (l + 1)) r' rs))
                  (take (nat (Mx c div 2) + 1) (ins_at (nat (l + 1) + 1) rt (ts[nat (l + 1) := t']))))
            (ins_at (nat (l + 1)) r' rs ! nat (Mx c div 2))
            (Nd (n' + 1) (drop (nat (Mx c div 2) + 1) (ins_at (nat (l + 1)) r' rs))
                  (drop (nat (Mx c div 2) + 1) (ins_at (nat (l + 1) + 1) rt (ts[nat (l + 1) := t']))))
            (n' + 1)"
proof -
  obtain fnd l where sn: "searchNode (anode rs) (key r) = (fnd, l)" by force
  show ?thesis
  proof (cases fnd)
    case True
    then show ?thesis using sn found by simp
  next
    case nf: False
    show ?thesis
    proof (cases "nat (l + 1) < length ts")
      case False
      then show ?thesis using sn nf oob by simp
    next
      case ci: True
      show ?thesis
      proof (cases "ains c r (ts ! nat (l + 1)) n")
        case Dup
        then show ?thesis using sn nf ci dup by simp
      next
        case (Stay t' n')
        then show ?thesis using sn nf ci stay by simp
      next
        case (Up t' r' rt n')
        show ?thesis
        proof (cases "int (length rs) < Mx c")
          case True
          then show ?thesis using sn nf ci Up room by (simp add: Let_def)
        next
          case False
          then show ?thesis using sn nf ci Up full[of l t' r' rt n'] by (simp add: Let_def)
        qed
      qed
    qed
  qed
qed

declare ains.simps(2) [simp del]

lemma ids_subtree: "t \<in> set ts \<Longrightarrow> ids t \<subseteq> (\<Union>t \<in> set ts. ids t)"
  by blast

lemma ids_update_sub:
  "(\<Union>t \<in> set (ts[ci := t']). ids t) \<subseteq> (\<Union>t \<in> set ts. ids t) \<union> ids t'"
  using set_update_subset_insert[of ts ci t'] by auto

lemma ids_ins_update_sub:
  "(\<Union>t \<in> set (ins_at k rt (ts[ci := t'])). ids t) \<subseteq> (\<Union>t \<in> set ts. ids t) \<union> ids t' \<union> ids rt"
  using set_ins_at_sub[of k rt "ts[ci := t']"] set_update_subset_insert[of ts ci t'] by fastforce

lemma ids_take_sub: "(\<Union>t \<in> set (take k ts). ids t) \<subseteq> (\<Union>t \<in> set ts. ids t)"
  by (auto dest: in_set_takeD)

lemma ids_drop_sub: "(\<Union>t \<in> set (drop k ts). ids t) \<subseteq> (\<Union>t \<in> set ts. ids t)"
  by (auto dest: in_set_dropD)

lemma split_ids_aux:
  "A \<subseteq> U \<Longrightarrow> B \<subseteq> U \<Longrightarrow> U \<subseteq> T \<union> I \<Longrightarrow> I \<subseteq> J \<Longrightarrow> x \<in> J \<Longrightarrow>
   insert i A \<union> insert x B \<subseteq> insert i T \<union> J"
  by blast

lemma ains_ids:
  "case ains c r t n of
     Dup \<Rightarrow> True
   | Stay t' n' \<Rightarrow> n \<le> n' \<and> ids t' \<subseteq> ids t \<union> {n + 1 .. n'}
   | Up t' r' rt n' \<Rightarrow> n \<le> n' \<and> ids t' \<union> ids rt \<subseteq> ids t \<union> {n + 1 .. n'}"
proof (induction t)
  case Lf
  then show ?case by simp
next
  case (Nd i rs ts)
  show ?case
  proof (cases rule: ains_Nd_cases[of rs r c i ts n])
    case (found l)
    then show ?thesis by simp
  next
    case (oob l)
    then show ?thesis by simp
  next
    case (dup l)
    then show ?thesis by simp
  next
    case (stay l t' n')
    have "ts ! nat (l + 1) \<in> set ts" using stay by simp
    from Nd.IH[OF this] ids_subtree[OF this] stay(3)
    have a: "n \<le> n'" "ids t' \<subseteq> (\<Union>t \<in> set ts. ids t) \<union> {n + 1 .. n'}" by auto
    show ?thesis unfolding stay(4) using a ids_update_sub[of ts "nat (l + 1)" t'] by auto
  next
    case (room l t' r' rt n')
    have "ts ! nat (l + 1) \<in> set ts" using room by simp
    from Nd.IH[OF this] ids_subtree[OF this] room(3)
    have a: "n \<le> n'" "ids t' \<union> ids rt \<subseteq> (\<Union>t \<in> set ts. ids t) \<union> {n + 1 .. n'}" by auto
    show ?thesis unfolding room(5)
      using a ids_ins_update_sub[of "nat (l + 1) + 1" rt ts "nat (l + 1)" t'] by auto
  next
    case (full l t' r' rt n')
    have "ts ! nat (l + 1) \<in> set ts" using full by simp
    from Nd.IH[OF this] ids_subtree[OF this] full(3)
    have a: "n \<le> n'" "ids t' \<union> ids rt \<subseteq> (\<Union>t \<in> set ts. ids t) \<union> {n + 1 .. n'}" by auto
    let ?ts2 = "ins_at (nat (l + 1) + 1) rt (ts[nat (l + 1) := t'])"
    have u: "(\<Union>t \<in> set ?ts2. ids t) \<subseteq> (\<Union>t \<in> set ts. ids t) \<union> {n + 1 .. n'}"
      using a ids_ins_update_sub[of "nat (l + 1) + 1" rt ts "nat (l + 1)" t'] by blast
    have i1: "{n + 1 .. n'} \<subseteq> {n + 1 .. n' + 1}" "n' + 1 \<in> {n + 1 .. n' + 1}" using a(1) by auto
    have "insert i (\<Union>t \<in> set (take (nat (Mx c div 2) + 1) ?ts2). ids t)
          \<union> insert (n' + 1) (\<Union>t \<in> set (drop (nat (Mx c div 2) + 1) ?ts2). ids t)
          \<subseteq> insert i (\<Union>t \<in> set ts. ids t) \<union> {n + 1 .. n' + 1}"
      by (rule split_ids_aux[OF ids_take_sub ids_drop_sub u i1])
    then show ?thesis unfolding full(5) using a(1) by simp
  qed
qed

section \<open>The recursive insert computes the abstract insertion\<close>

lemma good_stu: "good c p f n s \<Longrightarrow> 0 \<le> n' \<Longrightarrow> length f' = nat n' + 1 \<Longrightarrow> good c p f' n' (stu s p f' n' cn)"
  by (simp add: good_def stu_def)

lemma stu_stu [simp]: "stu (stu s p f n cn) p f' n' cn' = stu s p f' n' cn'"
  by (simp add: stu_def)

lemma stu_cur: "good c p f n s \<Longrightarrow> s\<lparr>currentNode' := cn\<rparr> = stu s p f n cn"
  by (simp add: good_def stu_def fun_upd_idem)

lemma stu_cur_upd [simp]: "(stu s p f n cn)\<lparr>currentNode' := cn'\<rparr> = stu s p f n cn'"
  by (simp add: stu_def)

lemma stu_self: "good c p f n s \<Longrightarrow> stu s p f n (currentNode' s) = s"
  by (simp add: good_def stu_def fun_upd_idem)

lemma currentNode_stu [simp]: "currentNode' (stu s p f n cn) = cn"
  by (simp add: stu_def)

lemma goodD:
  assumes "good c p f n s"
  shows "file' s = Some p" "disk s p = Some f" "\<not> fail' s" "mode' s = Write"
    "numNodes' s = n" "0 \<le> n" "length f = nat n + 1"
  using assms by (simp_all add: good_def)

lemma good_read:
  assumes w: "wf_cfg c" and g: "good c p f n s" and q: "0 \<le> q" "q \<le> n"
  shows "snd (readNode c q s) = stu s p f n (f ! nat q)"
proof -
  note g' = goodD[OF g]
  have "nat q < length f" using g' q by simp
  then have "snd (readNode c q s) = s\<lparr>currentNode' := f ! nat q\<rparr>"
    by (intro readNode_simp[OF w g'(1,2,3) q(1)])
  then show ?thesis using stu_cur[OF g] by simp
qed

lemma good_write:
  assumes w: "wf_cfg c" and g: "good c p f n s" and q: "0 \<le> q" "q \<le> n"
  shows "snd (writeNode c q nd s) = stu s p (f[nat q := nd]) n (currentNode' s)"
proof -
  note g' = goodD[OF g]
  have l: "nat q < length f" "nat q \<le> length f" using g' q by simp_all
  have "snd (writeNode c q nd s) = s\<lparr>disk := (disk s)(p \<mapsto> (if nat q < length f then f[nat q := nd] else f @ [nd]))\<rparr>"
    by (rule writeNode_simp[OF w g'(1,2,3,4) q(1) l(2)])
  then show ?thesis using l g' by (simp add: stu_def)
qed

lemma good_write_new:
  assumes w: "wf_cfg c" and g: "good c p f n s"
  shows "snd (writeNode c (n + 1) nd (s\<lparr>numNodes' := n + 1\<rparr>)) = stu s p (f @ [nd]) (n + 1) (currentNode' s)"
proof -
  let ?s = "s\<lparr>numNodes' := n + 1\<rparr>"
  have a: "file' ?s = Some p" "disk ?s p = Some f" "\<not> fail' ?s" "mode' ?s = Write" "0 \<le> n + 1"
    "nat (n + 1) \<le> length f"
    using g by (simp_all add: good_def nat_add_distrib)
  have "\<not> nat (n + 1) < length f" using g by (simp add: good_def nat_add_distrib)
  then show ?thesis using writeNode_simp[OF w a, of nd] by (simp add: stu_def)
qed

subsection \<open>Unfolding the recursive insert\<close>

lemma pushDown_nil: "pushDown c r NilPtr s = Some (Inr ((True, r, NilPtr), s))"
  by (subst pushDown.simps) simp

lemma pushDown_found:
  "q \<noteq> NilPtr \<Longrightarrow> snd (readNode c q s) = s1 \<Longrightarrow> searchNode (currentNode' s1) (key r) = (True, l) \<Longrightarrow>
   pushDown c r q s = Some (Inl (DuplicateKey, s1))"
  by (subst pushDown.simps) (simp add: Let_def)

lemma pushDown_err:
  "q \<noteq> NilPtr \<Longrightarrow> snd (readNode c q s) = s1 \<Longrightarrow> searchNode (currentNode' s1) (key r) = (False, l) \<Longrightarrow>
   pushDown c r (branches (currentNode' s1) ! nat (l + 1)) s1 = Some (Inl e) \<Longrightarrow>
   pushDown c r q s = Some (Inl e)"
  by (subst pushDown.simps) (simp add: Let_def)

lemma pushDown_stay:
  "q \<noteq> NilPtr \<Longrightarrow> snd (readNode c q s) = s1 \<Longrightarrow> searchNode (currentNode' s1) (key r) = (False, l) \<Longrightarrow>
   pushDown c r (branches (currentNode' s1) ! nat (l + 1)) s1 = Some (Inr ((False, nr, nrt), s2)) \<Longrightarrow>
   pushDown c r q s = Some (Inr ((False, nr, nrt), s2))"
  by (subst pushDown.simps) (simp add: Let_def)

lemma pushDown_room:
  "q \<noteq> NilPtr \<Longrightarrow> snd (readNode c q s) = s1 \<Longrightarrow> searchNode (currentNode' s1) (key r) = (False, l) \<Longrightarrow>
   pushDown c r (branches (currentNode' s1) ! nat (l + 1)) s1 = Some (Inr ((True, nr, nrt), s2)) \<Longrightarrow>
   snd (readNode c q s2) = s3 \<Longrightarrow> count (currentNode' s3) < to_int (MaxKeys c) \<Longrightarrow>
   pushDown c r q s = Some (Inr ((False, nr, nrt),
      snd (writeNode c q (addRecord nr nrt (currentNode' s3) (l + 1))
             (s3\<lparr>currentNode' := addRecord nr nrt (currentNode' s3) (l + 1)\<rparr>))))"
  by (subst pushDown.simps) (simp add: Let_def)

lemma pushDown_full:
  "q \<noteq> NilPtr \<Longrightarrow> snd (readNode c q s) = s1 \<Longrightarrow> searchNode (currentNode' s1) (key r) = (False, l) \<Longrightarrow>
   pushDown c r (branches (currentNode' s1) ! nat (l + 1)) s1 = Some (Inr ((True, nr, nrt), s2)) \<Longrightarrow>
   snd (readNode c q s2) = s3 \<Longrightarrow> \<not> count (currentNode' s3) < to_int (MaxKeys c) \<Longrightarrow>
   split c nr nrt q l s3 = ((nr', nrt'), s4) \<Longrightarrow>
   pushDown c r q s = Some (Inr ((True, nr', nrt'), s4))"
  by (subst pushDown.simps) (simp add: Let_def)

lemma list_all2_ins_at:
  "list_all2 P xs ys \<Longrightarrow> P x y \<Longrightarrow> list_all2 P (ins_at i x xs) (ins_at i y ys)"
  unfolding ins_at_def
  by (intro list_all2_appendI list_all2_takeI) (simp_all add: list_all2_dropI)

lemma set_idl: "set (idl t) = ids t"
  by (induction t) auto

lemma idl_split:
  "j < length ts \<Longrightarrow>
   concat (map idl ts) = concat (map idl (take j ts)) @ idl (ts ! j) @ concat (map idl (drop (Suc j) ts))"
proof -
  assume j: "j < length ts"
  have "concat (map idl ts) = concat (map idl (take j ts @ ts ! j # drop (Suc j) ts))"
    by (simp only: id_take_nth_drop[OF j, symmetric])
  then show ?thesis by simp
qed

lemma okids_notin: "okids (Nd i rs ts) \<Longrightarrow> t \<in> set ts \<Longrightarrow> i \<notin> ids t"
  by (auto simp: okids_def set_idl)

lemma okids_child:
  "okids (Nd i rs ts) \<Longrightarrow> j < length ts \<Longrightarrow> okids (ts ! j) \<and> i \<notin> ids (ts ! j)"
  using okids_notin[of i rs ts "ts ! j"] idl_split[of j ts] by (auto simp: okids_def)

lemma okids_disj:
  assumes "okids (Nd i rs ts)" "j < length ts" "k < length ts" "j \<noteq> k"
  shows "ids (ts ! j) \<inter> ids (ts ! k) = {}"
proof -
  have d: "distinct (concat (map idl ts))" using assms(1) by (simp add: okids_def)
  have aux: "ids (ts ! a) \<inter> ids (ts ! b) = {}" if "a < b" "b < length ts" for a b
  proof -
    have a: "a < length ts" using that by simp
    have "drop (Suc a) ts ! (b - Suc a) = ts ! b" using that by simp
    moreover have "b - Suc a < length (drop (Suc a) ts)" using that by simp
    ultimately have "ts ! b \<in> set (drop (Suc a) ts)" using nth_mem by metis
    then have "ids (ts ! b) \<subseteq> set (concat (map idl (drop (Suc a) ts)))" by (auto simp: set_idl)
    moreover have "set (idl (ts ! a)) \<inter> set (concat (map idl (drop (Suc a) ts))) = {}"
      using d unfolding idl_split[OF a] by auto
    ultimately show ?thesis by (auto simp: set_idl)
  qed
  show ?thesis
  proof (cases "j < k")
    case True then show ?thesis using aux assms by simp
  next
    case False then have "k < j" using assms by simp
    then show ?thesis using aux[of k j] assms by auto
  qed
qed

lemma ids_child_sub: "j < length ts \<Longrightarrow> ids (ts ! j) \<subseteq> ids (Nd i rs ts)"
  by (auto intro: nth_mem)

lemma rep_frame_list:
  assumes "list_all2 (rep c f) ts bs" "\<forall>t \<in> set ts. \<forall>k \<in> ids t. f' ! nat k = f ! nat k"
    "length f \<le> length f'"
  shows "list_all2 (rep c f') ts bs"
proof -
  have "\<And>j. j < length ts \<Longrightarrow> rep c f' (ts ! j) (bs ! j)"
  proof -
    fix j assume j: "j < length ts"
    then have "rep c f (ts ! j) (bs ! j)" using assms(1) by (simp add: list_all2_conv_all_nth)
    moreover have "\<forall>k \<in> ids (ts ! j). f' ! nat k = f ! nat k"
      using assms(2) nth_mem[OF j] by blast
    ultimately show "rep c f' (ts ! j) (bs ! j)" using assms(3) by (rule rep_frame)
  qed
  then show ?thesis using assms(1) by (simp add: list_all2_conv_all_nth)
qed

lemma children_after_rec:
  assumes ok: "okids (Nd i rs ts)" and sub: "ids (Nd i rs ts) \<subseteq> {1..n}" and ci: "ci < length ts"
    and fr: "frame f f1 n (ids (ts ! ci))" and len: "length f \<le> length f1"
    and ch: "\<And>j. j < length ts \<Longrightarrow> rep c f (ts ! j) (bs ! j)" and lb: "length bs = length ts"
    and rp: "rep c f1 t1 (bs ! ci)"
  shows "list_all2 (rep c f1) (ts[ci := t1]) bs"
proof -
  have "\<And>j. j < length ts \<Longrightarrow> rep c f1 ((ts[ci := t1]) ! j) (bs ! j)"
  proof -
    fix j assume j: "j < length ts"
    show "rep c f1 ((ts[ci := t1]) ! j) (bs ! j)"
    proof (cases "j = ci")
      case True
      then show ?thesis using rp ci by simp
    next
      case False
      have d: "ids (ts ! j) \<inter> ids (ts ! ci) = {}" using okids_disj[OF ok j ci False] .
      have s: "ids (ts ! j) \<subseteq> {1..n}" using sub ids_child_sub[OF j, of i rs] by blast
      have "\<forall>k \<in> ids (ts ! j). f1 ! nat k = f ! nat k"
      proof
        fix k assume k: "k \<in> ids (ts ! j)"
        then have "0 \<le> k \<and> k \<le> n \<and> k \<notin> ids (ts ! ci)" using d s by auto
        then show "f1 ! nat k = f ! nat k" using fr by (simp add: frame_def)
      qed
      from rep_frame[OF ch[OF j] this len] show ?thesis using False by simp
    qed
  qed
  then show ?thesis using lb by (simp add: list_all2_conv_all_nth)
qed

lemma ids_after_rec:
  assumes ok: "okids (Nd i rs ts)" and sub: "ids (Nd i rs ts) \<subseteq> {1..n}" and ci: "ci < length ts"
    and new: "ids t1 \<union> ids rt1 \<subseteq> ids (ts ! ci) \<union> {n + 1 .. n1}" and nn: "n \<le> n1"
    and t: "t \<in> set (ts[ci := t1]) \<or> t = rt1" and j: "j \<in> ids t"
  shows "1 \<le> j \<and> j \<le> n1 \<and> j \<noteq> i"
proof -
  have i: "1 \<le> i" "i \<le> n" using sub by auto
  have c: "i \<notin> ids (ts ! ci)" "ids (ts ! ci) \<subseteq> {1..n}"
    using okids_child[OF ok ci] sub ids_child_sub[OF ci, of i rs] by auto
  from t have "t = rt1 \<or> t = t1 \<or> t \<in> set ts"
    using set_update_subset_insert[of ts ci t1] by blast
  then consider "j \<in> ids t1 \<union> ids rt1" | "t \<in> set ts" using j by blast
  then show ?thesis
  proof cases
    case 1
    then have "j \<in> ids (ts ! ci) \<or> (n + 1 \<le> j \<and> j \<le> n1)" using new by auto
    then show ?thesis using c i nn by auto
  next
    case 2
    then have "j \<in> ids (Nd i rs ts)" "j \<noteq> i" using j okids_notin[OF ok 2] by auto
    then show ?thesis using sub nn by auto
  qed
qed

lemma pushDown_refines:
  assumes w: "wf_cfg c"
  shows "rep c f t q \<Longrightarrow> okids t \<Longrightarrow> ids t \<subseteq> {1..n} \<Longrightarrow> good c p f n s \<Longrightarrow>
    (case ains c r t n of
       Dup \<Rightarrow> \<exists>cn. pushDown c r q s = Some (Inl (DuplicateKey, s\<lparr>currentNode' := cn\<rparr>))
     | Stay t' n' \<Rightarrow> \<exists>cn f' nr nrt.
          pushDown c r q s = Some (Inr ((False, nr, nrt), stu s p f' n' cn)) \<and>
          rep c f' t' q \<and> length f' = nat n' + 1 \<and> frame f f' n (ids t)
     | Up t' r' rt n' \<Rightarrow> \<exists>cn f'.
          pushDown c r q s = Some (Inr ((True, r', rid rt), stu s p f' n' cn)) \<and>
          rep c f' t' q \<and> rep c f' rt (rid rt) \<and> length f' = nat n' + 1 \<and> frame f f' n (ids t))"
proof (induction t arbitrary: q s f n)
  case Lf
  then have q: "q = NilPtr" by simp
  have "stu s p f n (currentNode' s) = s" using stu_self[OF Lf.prems(4)] .
  then show ?case using Lf.prems q goodD[OF Lf.prems(4)]
    by (auto simp: pushDown_nil frame_def intro!: exI[of _ "currentNode' s"] exI[of _ f])
next
  case (Nd i rs ts)
  note g = Nd.prems(4)
  note g' = goodD[OF g]
  define nd where "nd = f ! nat i"
  have qi: "q = i" and i: "0 < i" "nat i < length f" and sh: "shape c nd" and nr: "nrecs nd = rs"
    and lts: "length ts = length rs + 1"
    and ch: "\<And>j. j < length ts \<Longrightarrow> rep c f (ts ! j) (nbrs nd ! j)"
    using Nd.prems(1) by (simp_all add: nd_def)
  have i_le: "0 \<le> i" "i \<le> n" "i \<noteq> NilPtr" using i Nd.prems(3) by auto
  have cnt: "count nd = int (length rs)" using rep_count[OF sh nr] .
  have shl: "length (records nd) = nat (Mx c)" "length (branches nd) = nat (Mx c) + 1"
    "0 \<le> count nd" "count nd \<le> Mx c"
    using sh by (simp_all add: shape_def)
  define s1 where "s1 = stu s p f n nd"
  have r1: "snd (readNode c i s) = s1" using good_read[OF w g i_le(1,2)] by (simp add: s1_def nd_def)
  have g1: "good c p f n s1" unfolding s1_def using good_stu[OF g g'(6,7)] .
  have cur1: "currentNode' s1 = nd" by (simp add: s1_def)
  have sn_eq: "searchNode nd (key r) = searchNode (anode rs) (key r)"
    using searchNode_anode[of nd "key r"] shl cnt nr by simp
  have s1s: "\<And>cn. s1\<lparr>currentNode' := cn\<rparr> = s\<lparr>currentNode' := cn\<rparr>"
    by (simp add: s1_def stu_cur[OF g])
  have stu1: "\<And>f' n' cn. stu s1 p f' n' cn = stu s p f' n' cn" by (simp add: s1_def)
  have lbs: "length (nbrs nd) = length ts" using shl cnt lts by (simp add: nbrs_def)
  have common: "searchNode (currentNode' s1) (key r) = (False, l) \<and> - 1 \<le> l \<and> l < Mx c \<and>
      int (nat (l + 1)) \<le> count nd \<and> int (nat (l + 1)) = l + 1 \<and>
      branches (currentNode' s1) ! nat (l + 1) = nbrs nd ! nat (l + 1) \<and>
      (case ains c r (ts ! nat (l + 1)) n of
       Dup \<Rightarrow> \<exists>cn. pushDown c r (nbrs nd ! nat (l + 1)) s1 = Some (Inl (DuplicateKey, s1\<lparr>currentNode' := cn\<rparr>))
     | Stay t' n' \<Rightarrow> \<exists>cn f' nr nrt.
          pushDown c r (nbrs nd ! nat (l + 1)) s1 = Some (Inr ((False, nr, nrt), stu s1 p f' n' cn)) \<and>
          rep c f' t' (nbrs nd ! nat (l + 1)) \<and> length f' = nat n' + 1 \<and> frame f f' n (ids (ts ! nat (l + 1)))
     | Up t' r' rt n' \<Rightarrow> \<exists>cn f'.
          pushDown c r (nbrs nd ! nat (l + 1)) s1 = Some (Inr ((True, r', rid rt), stu s1 p f' n' cn)) \<and>
          rep c f' t' (nbrs nd ! nat (l + 1)) \<and> rep c f' rt (rid rt) \<and> length f' = nat n' + 1 \<and>
          frame f f' n (ids (ts ! nat (l + 1))))"
    if sn0: "searchNode (anode rs) (key r) = (False, l)" and ci: "nat (l + 1) < length ts" for l
  proof -
    have sn: "searchNode (currentNode' s1) (key r) = (False, l)" using sn0 sn_eq cur1 by simp
    have lr: "- 1 \<le> l" "nat (l + 1) \<le> length rs" "l < Mx c"
      using searchNode_spec(1)[OF shl(3), of "key r" False l] sn cur1 cnt shl(4) wf_Mx(1)[OF w] by auto
    have bq: "branches (currentNode' s1) ! nat (l + 1) = nbrs nd ! nat (l + 1)"
      using lr cnt by (simp add: cur1 nbrs_def)
    have ih: "case ains c r (ts ! nat (l + 1)) n of
       Dup \<Rightarrow> \<exists>cn. pushDown c r (nbrs nd ! nat (l + 1)) s1 = Some (Inl (DuplicateKey, s1\<lparr>currentNode' := cn\<rparr>))
     | Stay t' n' \<Rightarrow> \<exists>cn f' nr nrt.
          pushDown c r (nbrs nd ! nat (l + 1)) s1 = Some (Inr ((False, nr, nrt), stu s1 p f' n' cn)) \<and>
          rep c f' t' (nbrs nd ! nat (l + 1)) \<and> length f' = nat n' + 1 \<and> frame f f' n (ids (ts ! nat (l + 1)))
     | Up t' r' rt n' \<Rightarrow> \<exists>cn f'.
          pushDown c r (nbrs nd ! nat (l + 1)) s1 = Some (Inr ((True, r', rid rt), stu s1 p f' n' cn)) \<and>
          rep c f' t' (nbrs nd ! nat (l + 1)) \<and> rep c f' rt (rid rt) \<and> length f' = nat n' + 1 \<and>
          frame f f' n (ids (ts ! nat (l + 1)))"
      using ci ch[OF ci] okids_child[OF Nd.prems(2) ci] ids_child_sub[OF ci, of i rs] Nd.prems(3) g1
      by (intro Nd.IH) auto
    show ?thesis using sn lr bq ih cnt by simp
  qed
  show ?case
  proof (cases rule: ains_Nd_cases[of rs r c i ts n])
    case (found l)
    have "searchNode (currentNode' s1) (key r) = (True, l)" using found(1) by (simp add: cur1 sn_eq)
    then have "pushDown c r q s = Some (Inl (DuplicateKey, s1))"
      unfolding qi by (rule pushDown_found[OF i_le(3) r1])
    moreover have "s1 = s\<lparr>currentNode' := nd\<rparr>" by (simp add: s1_def stu_cur[OF g])
    ultimately show ?thesis unfolding found(2) by auto
  next
    case (oob l)
    have "searchNode nd (key r) = (False, l)" using oob(1) sn_eq by simp
    from searchNode_spec(1)[OF shl(3) this] have "nat (l + 1) \<le> length rs" using cnt by auto
    then show ?thesis using oob(2) lts by simp
  next
    case (dup l)
    note cm = common[OF dup(1,2)]
    obtain cn where "pushDown c r (nbrs nd ! nat (l + 1)) s1 = Some (Inl (DuplicateKey, s1\<lparr>currentNode' := cn\<rparr>))"
      using cm dup(3) by auto
    then have pd: "pushDown c r (branches (currentNode' s1) ! nat (l + 1)) s1
                   = Some (Inl (DuplicateKey, s1\<lparr>currentNode' := cn\<rparr>))"
      using cm by simp
    have "pushDown c r i s = Some (Inl (DuplicateKey, s1\<lparr>currentNode' := cn\<rparr>))"
      using cm by (intro pushDown_err[OF i_le(3) r1 _ pd]) simp
    then show ?thesis unfolding dup(4) s1s qi by auto
  next
    case (stay l t' n')
    define ci where "ci = nat (l + 1)"
    note cm = common[OF stay(1,2)]
    obtain cn f1 nr nrt where
      pd0: "pushDown c r (nbrs nd ! ci) s1 = Some (Inr ((False, nr, nrt), stu s1 p f1 n' cn))"
      and rp: "rep c f1 t' (nbrs nd ! ci)" and lf1: "length f1 = nat n' + 1"
      and fr: "frame f f1 n (ids (ts ! ci))"
      using cm stay(3) unfolding ci_def by auto
    have ci: "ci < length ts" using stay(2) by (simp add: ci_def)
    have nn: "n \<le> n'" using ains_ids[where c = c and r = r and t = "ts ! ci" and n = n] stay(3) by (simp add: ci_def)
    have len: "length f \<le> length f1" using lf1 g'(6,7) nn by simp
    have pd: "pushDown c r (branches (currentNode' s1) ! nat (l + 1)) s1
                   = Some (Inr ((False, nr, nrt), stu s1 p f1 n' cn))"
      using cm pd0 by (simp add: ci_def)
    have res: "pushDown c r i s = Some (Inr ((False, nr, nrt), stu s p f1 n' cn))"
      using cm pushDown_stay[OF i_le(3) r1 _ pd] by (simp add: stu1)
    have ndi: "f1 ! nat i = nd"
      using fr okids_child[OF Nd.prems(2) ci] i_le by (simp add: frame_def nd_def)
    have la: "list_all2 (rep c f1) (ts[ci := t']) (nbrs nd)"
      using children_after_rec[OF Nd.prems(2,3) ci fr len ch lbs rp] .
    have "rep c f1 (Nd i rs (ts[ci := t'])) i"
      unfolding rep_Nd_iff using i len ndi sh nr la by simp
    moreover have "frame f f1 n (ids (Nd i rs ts))"
      using fr ids_child_sub[OF ci, of i rs] by (auto simp: frame_def)
    ultimately have "\<exists>cn f' nr nrt.
          pushDown c r i s = Some (Inr ((False, nr, nrt), stu s p f' n' cn)) \<and>
          rep c f' (Nd i rs (ts[ci := t'])) i \<and> length f' = nat n' + 1 \<and> frame f f' n (ids (Nd i rs ts))"
      using res lf1 by blast
    then show ?thesis unfolding stay(4) qi ci_def[symmetric] by (simp only: ins_res.case)
  next
    case (room l t' r' rt n')
    define ci where "ci = nat (l + 1)"
    note cm = common[OF room(1,2)]
    obtain cn f1 where
      pd0: "pushDown c r (nbrs nd ! ci) s1 = Some (Inr ((True, r', rid rt), stu s1 p f1 n' cn))"
      and rp: "rep c f1 t' (nbrs nd ! ci)" and rp2: "rep c f1 rt (rid rt)"
      and lf1: "length f1 = nat n' + 1" and fr: "frame f f1 n (ids (ts ! ci))"
      using cm room(3) unfolding ci_def by auto
    have ci: "ci < length ts" using room(2) by (simp add: ci_def)
    have new: "n \<le> n'" "ids t' \<union> ids rt \<subseteq> ids (ts ! ci) \<union> {n + 1 .. n'}"
      using ains_ids[where c = c and r = r and t = "ts ! ci" and n = n] room(3) by (simp_all add: ci_def)
    have len: "length f \<le> length f1" using lf1 g'(6,7) new(1) by simp
    have n0: "0 \<le> n'" "i \<le> n'" using new(1) g'(6) i_le by simp_all
    have pd: "pushDown c r (branches (currentNode' s1) ! nat (l + 1)) s1
                   = Some (Inr ((True, r', rid rt), stu s p f1 n' cn))"
      using cm pd0 by (simp add: ci_def stu1)
    have sn: "searchNode (currentNode' s1) (key r) = (False, l)" using cm by simp
    have g2: "good c p f1 n' (stu s p f1 n' cn)" using good_stu[OF g n0(1) lf1] .
    have ndi: "f1 ! nat i = nd"
      using fr okids_child[OF Nd.prems(2) ci] i_le by (simp add: frame_def nd_def)
    have r3: "snd (readNode c i (stu s p f1 n' cn)) = stu s p f1 n' nd"
      using good_read[OF w g2 i_le(1) n0(2)] ndi by simp
    have c3: "count (currentNode' (stu s p f1 n' nd)) < to_int (MaxKeys c)"
      using room(4) cnt by (simp add: wf_to_int_MaxKeys[OF w])
    define nd' where "nd' = addRecord r' (rid rt) nd (l + 1)"
    have g3: "good c p f1 n' (stu s p f1 n' nd')" using good_stu[OF g n0(1) lf1] .
    define f2 where "f2 = f1[nat i := nd']"
    have wr: "snd (writeNode c i nd' (stu s p f1 n' nd')) = stu s p f2 n' nd'"
      using good_write[OF w g3 i_le(1) n0(2)] by (simp add: f2_def)
    have res: "pushDown c r i s = Some (Inr ((False, r', rid rt), stu s p f2 n' nd'))"
      using pushDown_room[OF i_le(3) r1 sn pd r3 c3] wr by (simp add: nd'_def)
    have pre: "0 \<le> l + 1" "l + 1 \<le> count nd" "nat (count nd) < length (records nd)"
      "nat (count nd) + 1 < length (branches nd)"
      using cm room(4) cnt shl by auto
    note ar = addRecord_spec[OF pre, of r' "rid rt", folded nd'_def]
    have sh': "shape c nd'" using ar shl room(4) cnt by (simp add: shape_def)
    have nr': "nrecs nd' = ins_at ci r' rs" "nbrs nd' = ins_at (ci + 1) (rid rt) (nbrs nd)"
      using ar nr by (simp_all add: ci_def)
    have la1: "list_all2 (rep c f1) (ts[ci := t']) (nbrs nd)"
      using children_after_rec[OF Nd.prems(2,3) ci fr len ch lbs rp] .
    have keep: "\<And>t k. t \<in> set (ts[ci := t']) \<or> t = rt \<Longrightarrow> k \<in> ids t \<Longrightarrow> f2 ! nat k = f1 ! nat k"
    proof -
      fix t k assume "t \<in> set (ts[ci := t']) \<or> t = rt" "k \<in> ids t"
      from ids_after_rec[OF Nd.prems(2,3) ci new(2,1) this] have "nat k \<noteq> nat i" using i by auto
      then show "f2 ! nat k = f1 ! nat k" by (simp add: f2_def)
    qed
    have l2: "length f1 \<le> length f2" by (simp add: f2_def)
    have la2: "list_all2 (rep c f2) (ts[ci := t']) (nbrs nd)"
      using keep by (intro rep_frame_list[OF la1 _ l2]) blast
    have rp2': "rep c f2 rt (rid rt)" using keep by (intro rep_frame[OF rp2 _ l2]) blast
    have la3: "list_all2 (rep c f2) (ins_at (ci + 1) rt (ts[ci := t'])) (nbrs nd')"
      unfolding nr' using la2 rp2' by (rule list_all2_ins_at)
    have "f2 ! nat i = nd'" using i len by (simp add: f2_def)
    then have "rep c f2 (Nd i (ins_at ci r' rs) (ins_at (ci + 1) rt (ts[ci := t']))) i"
      unfolding rep_Nd_iff using i len sh' nr' la3 by (simp add: f2_def)
    moreover have "frame f f2 n (ids (Nd i rs ts))"
    proof -
      have "\<And>j. 0 \<le> j \<Longrightarrow> j \<le> n \<Longrightarrow> j \<notin> ids (Nd i rs ts) \<Longrightarrow> f2 ! nat j = f ! nat j"
      proof -
        fix j assume j: "0 \<le> j" "j \<le> n" "j \<notin> ids (Nd i rs ts)"
        then have "nat j \<noteq> nat i" "j \<notin> ids (ts ! ci)" using i ids_child_sub[OF ci, of i rs] by auto
        then show "f2 ! nat j = f ! nat j" using fr j by (simp add: f2_def frame_def)
      qed
      then show ?thesis by (simp add: frame_def)
    qed
    moreover have "length f2 = nat n' + 1" using lf1 by (simp add: f2_def)
    ultimately have "\<exists>cn f' nr nrt.
          pushDown c r i s = Some (Inr ((False, nr, nrt), stu s p f' n' cn)) \<and>
          rep c f' (Nd i (ins_at ci r' rs) (ins_at (ci + 1) rt (ts[ci := t']))) i \<and>
          length f' = nat n' + 1 \<and> frame f f' n (ids (Nd i rs ts))"
      using res by blast
    then show ?thesis unfolding room(5) qi ci_def[symmetric] by (simp only: ins_res.case)
  next
    case (full l t' r' rt n')
    define ci where "ci = nat (l + 1)"
    define m where "m = nat (Mx c div 2)"
    note cm = common[OF full(1,2)]
    obtain cn f1 where
      pd0: "pushDown c r (nbrs nd ! ci) s1 = Some (Inr ((True, r', rid rt), stu s1 p f1 n' cn))"
      and rp: "rep c f1 t' (nbrs nd ! ci)" and rp2: "rep c f1 rt (rid rt)"
      and lf1: "length f1 = nat n' + 1" and fr: "frame f f1 n (ids (ts ! ci))"
      using cm full(3) unfolding ci_def by auto
    have ci: "ci < length ts" using full(2) by (simp add: ci_def)
    have new: "n \<le> n'" "ids t' \<union> ids rt \<subseteq> ids (ts ! ci) \<union> {n + 1 .. n'}"
      using ains_ids[where c = c and r = r and t = "ts ! ci" and n = n] full(3) by (simp_all add: ci_def)
    have len: "length f \<le> length f1" using lf1 g'(6,7) new(1) by simp
    have n0: "0 \<le> n'" "i \<le> n'" using new(1) g'(6) i_le by simp_all
    have pd: "pushDown c r (branches (currentNode' s1) ! nat (l + 1)) s1
                   = Some (Inr ((True, r', rid rt), stu s p f1 n' cn))"
      using cm pd0 by (simp add: ci_def stu1)
    have sn: "searchNode (currentNode' s1) (key r) = (False, l)" using cm by simp
    have g2: "good c p f1 n' (stu s p f1 n' cn)" using good_stu[OF g n0(1) lf1] .
    have ndi: "f1 ! nat i = nd"
      using fr okids_child[OF Nd.prems(2) ci] i_le by (simp add: frame_def nd_def)
    have r3: "snd (readNode c i (stu s p f1 n' cn)) = stu s p f1 n' nd"
      using good_read[OF w g2 i_le(1) n0(2)] ndi by simp
    have c3: "\<not> count (currentNode' (stu s p f1 n' nd)) < to_int (MaxKeys c)"
      using full(4) cnt by (simp add: wf_to_int_MaxKeys[OF w])
    have g3: "good c p f1 n' (stu s p f1 n' nd)" using good_stu[OF g n0(1) lf1] .
    note g3' = goodD[OF g3]
    have cfull: "count (f1 ! nat i) = Mx c" using full(4) cnt shl(4) ndi by simp
    have shi: "shape c (f1 ! nat i)" using sh ndi by simp
    have lc: "- 1 \<le> l" "l < Mx c" using cm by simp_all
    define rs2 where "rs2 = ins_at ci r' rs"
    define bs2 where "bs2 = ins_at (ci + 1) (rid rt) (nbrs nd)"
    define ts2 where "ts2 = ins_at (ci + 1) rt (ts[ci := t'])"
    from split_spec[OF w g3'(1-4) g3'(5,6,7) i(1) n0(2) shi cfull lc, of r' "rid rt"]
    obtain L R where
      sp: "split c r' (rid rt) i l (stu s p f1 n' nd) =
            ((rs2 ! m, n' + 1), stu s p (f1[nat i := L] @ [R]) (n' + 1) L)"
      and shL: "shape c L" and shR: "shape c R"
      and nL: "nrecs L = take m rs2" "nbrs L = take (m + 1) bs2"
      and nR: "nrecs R = drop (m + 1) rs2" "nbrs R = drop (m + 1) bs2"
      unfolding ndi nr by (auto simp: rs2_def bs2_def m_def ci_def stu_def)
    define f2 where "f2 = f1[nat i := L] @ [R]"
    have res: "pushDown c r i s = Some (Inr ((True, rs2 ! m, n' + 1), stu s p f2 (n' + 1) L))"
      using pushDown_full[OF i_le(3) r1 sn pd r3 c3 sp] by (simp add: f2_def)
    have la1: "list_all2 (rep c f1) (ts[ci := t']) (nbrs nd)"
      using children_after_rec[OF Nd.prems(2,3) ci fr len ch lbs rp] .
    have keep: "\<And>t k. t \<in> set (ts[ci := t']) \<or> t = rt \<Longrightarrow> k \<in> ids t \<Longrightarrow> f2 ! nat k = f1 ! nat k"
    proof -
      fix t k assume "t \<in> set (ts[ci := t']) \<or> t = rt" "k \<in> ids t"
      from ids_after_rec[OF Nd.prems(2,3) ci new(2,1) this]
      have "nat k \<noteq> nat i" "nat k < length f1" using i lf1 by auto
      then show "f2 ! nat k = f1 ! nat k" by (simp add: f2_def nth_append)
    qed
    have l2: "length f1 \<le> length f2" by (simp add: f2_def)
    have la2: "list_all2 (rep c f2) (ts[ci := t']) (nbrs nd)"
      using keep by (intro rep_frame_list[OF la1 _ l2]) blast
    have rp2': "rep c f2 rt (rid rt)" using keep by (intro rep_frame[OF rp2 _ l2]) blast
    have la3: "list_all2 (rep c f2) ts2 bs2"
      unfolding ts2_def bs2_def using la2 rp2' by (rule list_all2_ins_at)
    have fi: "f2 ! nat i = L" "nat i < length f2" using i len by (simp_all add: f2_def nth_append)
    have "rep c f2 (Nd i (take m rs2) (take (m + 1) ts2)) i"
      unfolding rep_Nd_iff using i fi shL nL list_all2_takeI[OF la3, of "m + 1"] by simp
    moreover have fn: "f2 ! nat (n' + 1) = R" "nat (n' + 1) < length f2" "0 < n' + 1"
      using lf1 n0 by (simp_all add: f2_def nth_append nat_add_distrib)
    have "rep c f2 (Nd (n' + 1) (drop (m + 1) rs2) (drop (m + 1) ts2)) (n' + 1)"
      unfolding rep_Nd_iff using fn shR nR list_all2_dropI[OF la3, of "m + 1"] by simp
    moreover have "frame f f2 n (ids (Nd i rs ts))"
    proof -
      have "\<And>j. 0 \<le> j \<Longrightarrow> j \<le> n \<Longrightarrow> j \<notin> ids (Nd i rs ts) \<Longrightarrow> f2 ! nat j = f ! nat j"
      proof -
        fix j assume j: "0 \<le> j" "j \<le> n" "j \<notin> ids (Nd i rs ts)"
        then have "nat j \<noteq> nat i" "j \<notin> ids (ts ! ci)" "nat j < length f1"
          using i ids_child_sub[OF ci, of i rs] len g'(7) by auto
        then show "f2 ! nat j = f ! nat j" using fr j by (simp add: f2_def frame_def nth_append)
      qed
      then show ?thesis by (simp add: frame_def)
    qed
    moreover have "length f2 = nat (n' + 1) + 1" using lf1 n0 by (simp add: f2_def nat_add_distrib)
    ultimately have "\<exists>cn f'.
          pushDown c r i s = Some (Inr ((True, rs2 ! m, rid (Nd (n' + 1) (drop (m + 1) rs2) (drop (m + 1) ts2))),
                                      stu s p f' (n' + 1) cn)) \<and>
          rep c f' (Nd i (take m rs2) (take (m + 1) ts2)) i \<and>
          rep c f' (Nd (n' + 1) (drop (m + 1) rs2) (drop (m + 1) ts2))
                   (rid (Nd (n' + 1) (drop (m + 1) rs2) (drop (m + 1) ts2))) \<and>
          length f' = nat (n' + 1) + 1 \<and> frame f f' n (ids (Nd i rs ts))"
      using res by (simp only: rid.simps) blast
    then show ?thesis unfolding full(5) qi ci_def[symmetric] m_def[symmetric] rs2_def[symmetric] ts2_def[symmetric]
      by (simp only: ins_res.case)
  qed
qed

section \<open>The abstract insertion keeps the invariants\<close>

subsection \<open>Search in a sorted node\<close>

lemma anode_simps [simp]: "count (anode rs) = int (length rs)" "nrecs (anode rs) = rs"
  by (simp_all add: anode_def nrecs_def)

lemma sorted_nth:
  "sorted_wrt (<) (map ckey rs) \<Longrightarrow> a < b \<Longrightarrow> b < length rs \<Longrightarrow> ckey (rs ! a) < ckey (rs ! b)"
  by (simp add: sorted_wrt_map sorted_wrt_iff_nth_less)

lemma asearch_range:
  assumes "searchNode (anode rs) k = (fnd, l)"
  shows "- 1 \<le> l" "nat (l + 1) \<le> length rs"
  using searchNode_spec(1)[of "anode rs" k fnd l] assms by auto

lemma asearch_found:
  assumes "searchNode (anode rs) k = (True, l)"
  shows "0 \<le> l" "nat l < length rs" "ckey (rs ! nat l) = cstr k"
  using searchNode_spec(2)[of "anode rs" k True l] assms by auto

lemma asearch_below:
  assumes srt: "sorted_wrt (<) (map ckey rs)" and sn: "searchNode (anode rs) k = (False, l)"
    and j: "j < length rs" "int j \<le> l"
  shows "ckey (rs ! j) < cstr k"
proof -
  have l: "0 \<le> l" "nat l < length rs" using j asearch_range[OF sn] by auto
  have a: "ckey (rs ! nat l) < cstr k"
    using searchNode_spec(3)[of "anode rs" k False l] sn l by simp
  show ?thesis
  proof (cases "j = nat l")
    case True then show ?thesis using a by simp
  next
    case False
    then have "j < nat l" using j l by linarith
    from sorted_nth[OF srt this l(2)] a show ?thesis by simp
  qed
qed

lemma asearch_above:
  assumes srt: "sorted_wrt (<) (map ckey rs)" and sn: "searchNode (anode rs) k = (fnd, l)"
    and j: "j < length rs" "l < int j"
  shows "cstr k < ckey (rs ! j)"
proof -
  have r: "- 1 \<le> l" using asearch_range[OF sn] by simp
  have l1: "l + 1 < int (length rs)" "nat (l + 1) \<le> j" using j r by auto
  have a: "cstr k < ckey (rs ! nat (l + 1))"
    using searchNode_spec(4)[of "anode rs" k fnd l] sn l1 by simp
  show ?thesis
  proof (cases "j = nat (l + 1)")
    case True then show ?thesis using a by simp
  next
    case False
    then have "nat (l + 1) < j" using l1 by simp
    from sorted_nth[OF srt this j(1)] a show ?thesis by simp
  qed
qed

lemma asearch_notin:
  assumes srt: "sorted_wrt (<) (map ckey rs)" and sn: "searchNode (anode rs) k = (False, l)"
  shows "cstr k \<notin> ckey ` set rs"
proof
  assume "cstr k \<in> ckey ` set rs"
  then obtain j where j: "j < length rs" "ckey (rs ! j) = cstr k" by (auto simp: in_set_conv_nth)
  show False
  proof (cases "int j \<le> l")
    case True
    from asearch_below[OF srt sn j(1) True] j(2) show False by simp
  next
    case False
    then have "l < int j" by simp
    from asearch_above[OF srt sn j(1) this] j(2) show False by simp
  qed
qed

subsection \<open>Bounds\<close>

lemma ltb_trans: "ltb lo a \<Longrightarrow> a < b \<Longrightarrow> ltb lo b"
  by (auto simp: ltb_def split: option.splits)

lemma gtb_trans: "a < b \<Longrightarrow> gtb b hi \<Longrightarrow> gtb a hi"
  by (auto simp: gtb_def split: option.splits)

lemma ltb_Some [simp]: "ltb (Some a) b \<longleftrightarrow> a < b"
  by (simp add: ltb_def)

lemma gtb_Some [simp]: "gtb a (Some b) \<longleftrightarrow> a < b"
  by (simp add: gtb_def)

lemma ltb_lob: "ltb (lob lo rs j) k \<Longrightarrow> j \<le> length rs \<Longrightarrow> \<forall>r \<in> set rs. ltb lo (ckey r) \<Longrightarrow> ltb lo k"
  by (cases "j = 0") (auto simp: lob_def intro: ltb_trans)

lemma gtb_hib: "gtb k (hib hi rs j) \<Longrightarrow> \<forall>r \<in> set rs. gtb (ckey r) hi \<Longrightarrow> gtb k hi"
  by (cases "j < length rs") (auto simp: hib_def intro: gtb_trans)

lemma ents_bounds:
  "bst lo hi t \<Longrightarrow> r \<in> ents t \<Longrightarrow> ltb lo (ckey r) \<and> gtb (ckey r) hi"
proof (induction t arbitrary: lo hi)
  case Lf
  then show ?case by simp
next
  case (Nd i rs ts)
  show ?case
  proof (cases "r \<in> set rs")
    case True
    then show ?thesis using Nd.prems by simp
  next
    case False
    then obtain t where t: "t \<in> set ts" "r \<in> ents t" using Nd.prems by auto
    then obtain j where j: "j < length ts" "t = ts ! j" by (auto simp: in_set_conv_nth)
    have "bst (lob lo rs j) (hib hi rs j) t" using Nd.prems j by simp
    from Nd.IH[OF t(1) this t(2)] have b: "ltb (lob lo rs j) (ckey r)" "gtb (ckey r) (hib hi rs j)" by auto
    have "j \<le> length rs" using j Nd.prems by simp
    then show ?thesis using ltb_lob[OF b(1)] gtb_hib[OF b(2)] Nd.prems by simp
  qed
qed

lemma child_bounds:
  assumes srt: "sorted_wrt (<) (map ckey rs)" and sn: "searchNode (anode rs) k = (False, l)"
    and lo: "ltb lo (cstr k)" and hi: "gtb (cstr k) hi"
  shows "ltb (lob lo rs (nat (l + 1))) (cstr k)" "gtb (cstr k) (hib hi rs (nat (l + 1)))"
proof -
  note r = asearch_range[OF sn]
  show "ltb (lob lo rs (nat (l + 1))) (cstr k)"
  proof (cases "nat (l + 1) = 0")
    case True then show ?thesis using lo by (simp add: lob_def)
  next
    case False
    then have "nat (l + 1) - 1 < length rs" "int (nat (l + 1) - 1) \<le> l" using r by auto
    from asearch_below[OF srt sn this] show ?thesis using False by (simp add: lob_def)
  qed
  show "gtb (cstr k) (hib hi rs (nat (l + 1)))"
  proof (cases "nat (l + 1) < length rs")
    case False then show ?thesis using hi by (simp add: hib_def)
  next
    case True
    moreover have "l < int (nat (l + 1))" using r by auto
    ultimately show ?thesis using asearch_above[OF srt sn] by (simp add: hib_def)
  qed
qed

lemma child_unique:
  assumes srt: "sorted_wrt (<) (map ckey rs)" and sn: "searchNode (anode rs) k = (False, l)"
    and j: "j \<le> length rs"
    and b: "ltb (lob lo rs j) (cstr k)" "gtb (cstr k) (hib hi rs j)"
  shows "j = nat (l + 1)"
proof (rule ccontr)
  assume ne: "j \<noteq> nat (l + 1)"
  note r = asearch_range[OF sn]
  show False
  proof (cases "j < nat (l + 1)")
    case True
    then have "j < length rs" "int j \<le> l" using r by auto
    from asearch_below[OF srt sn this] b(2) \<open>j < length rs\<close> show False by (simp add: hib_def)
  next
    case False
    then have "0 < j" "j - 1 < length rs" "l < int (j - 1)" using ne j r by auto
    from asearch_above[OF srt sn this(2,3)] b(1) \<open>0 < j\<close> show False by (simp add: lob_def)
  qed
qed

lemma ins_at_nth:
  "i \<le> length xs \<Longrightarrow> j \<le> length xs \<Longrightarrow>
   ins_at i x xs ! j = (if j < i then xs ! j else if j = i then x else xs ! (j - 1))"
  by (auto simp: ins_at_def nth_append min_def nth_Cons')

lemma lob_ins:
  "ci \<le> length rs \<Longrightarrow> j \<le> length rs + 1 \<Longrightarrow>
   lob lo (ins_at ci r1 rs) j =
     (if j \<le> ci then lob lo rs j else if j = ci + 1 then Some (ckey r1) else lob lo rs (j - 1))"
  by (auto simp: lob_def ins_at_nth)

lemma hib_ins:
  "ci \<le> length rs \<Longrightarrow> j \<le> length rs + 1 \<Longrightarrow>
   hib hi (ins_at ci r1 rs) j =
     (if j < ci then hib hi rs j else if j = ci then Some (ckey r1) else hib hi rs (j - 1))"
  by (auto simp: hib_def ins_at_nth)

lemma sorted_ins_at:
  assumes srt: "sorted_wrt (<) (map ckey rs)" and ci: "ci \<le> length rs"
    and lo: "ltb (lob lo rs ci) (ckey r1)" and hi: "gtb (ckey r1) (hib hi rs ci)"
  shows "sorted_wrt (<) (map ckey (ins_at ci r1 rs))"
proof -
  have below: "ckey (rs ! j) < ckey r1" if "j < ci" for j
  proof -
    have c0: "0 < ci" "ci - 1 < length rs" using that ci by auto
    then have a: "ckey (rs ! (ci - 1)) < ckey r1" using lo by (simp add: lob_def)
    show ?thesis
    proof (cases "j = ci - 1")
      case True then show ?thesis using a by simp
    next
      case False
      then have "j < ci - 1" using that by simp
      from sorted_nth[OF srt this c0(2)] a show ?thesis by simp
    qed
  qed
  have above: "ckey r1 < ckey (rs ! j)" if "ci \<le> j" "j < length rs" for j
  proof -
    have c0: "ci < length rs" using that by simp
    then have a: "ckey r1 < ckey (rs ! ci)" using hi by (simp add: hib_def)
    show ?thesis
    proof (cases "j = ci")
      case True then show ?thesis using a by simp
    next
      case False
      then have "ci < j" using that by simp
      from sorted_nth[OF srt this that(2)] a show ?thesis by simp
    qed
  qed
  have "\<And>a b. a < b \<Longrightarrow> b < length (ins_at ci r1 rs) \<Longrightarrow>
          ckey (ins_at ci r1 rs ! a) < ckey (ins_at ci r1 rs ! b)"
  proof -
    fix a b assume ab: "a < b" "b < length (ins_at ci r1 rs)"
    then have b: "b \<le> length rs" "a \<le> length rs" by simp_all
    consider "b < ci" | "b = ci" | "a < ci" "ci < b" | "a = ci" "ci < b" | "ci < a" using ab by linarith
    then show "ckey (ins_at ci r1 rs ! a) < ckey (ins_at ci r1 rs ! b)"
    proof cases
      case 1
      then show ?thesis using ab ci b sorted_nth[OF srt, of a b] by (simp add: ins_at_nth)
    next
      case 2
      then show ?thesis using ab ci b below[of a] by (simp add: ins_at_nth)
    next
      case 3
      have "a < b - 1 \<or> a = b - 1" using ab by linarith
      then show ?thesis using 3 ab ci b sorted_nth[OF srt, of a "b - 1"]
        by (auto simp add: ins_at_nth)
    next
      case 4
      then show ?thesis using ab ci b above[of "b - 1"] by (simp add: ins_at_nth)
    next
      case 5
      then show ?thesis using ab ci b sorted_nth[OF srt, of "a - 1" "b - 1"] by (simp add: ins_at_nth)
    qed
  qed
  then show ?thesis by (simp add: sorted_wrt_map sorted_wrt_iff_nth_less)
qed

lemma bst_node_insert:
  assumes b: "bst lo hi (Nd i rs ts)" and ci: "ci \<le> length rs"
    and b1: "bst (lob lo rs ci) (Some (ckey r1)) t1" and b2: "bst (Some (ckey r1)) (hib hi rs ci) rt1"
    and k1: "ltb (lob lo rs ci) (ckey r1)" "gtb (ckey r1) (hib hi rs ci)"
  shows "bst lo hi (Nd i' (ins_at ci r1 rs) (ins_at (ci + 1) rt1 (ts[ci := t1])))"
proof -
  have srt: "sorted_wrt (<) (map ckey rs)" and lts: "length ts = length rs + 1"
    and bnd: "\<forall>r \<in> set rs. ltb lo (ckey r) \<and> gtb (ckey r) hi"
    and ch: "\<And>j. j < length ts \<Longrightarrow> bst (lob lo rs j) (hib hi rs j) (ts ! j)"
    using b by simp_all
  let ?rs2 = "ins_at ci r1 rs" and ?ts2 = "ins_at (ci + 1) rt1 (ts[ci := t1])"
  have s2: "sorted_wrt (<) (map ckey ?rs2)" using sorted_ins_at[OF srt ci k1] .
  have r1b: "ltb lo (ckey r1)" "gtb (ckey r1) hi"
    using ltb_lob[OF k1(1) ci] gtb_hib[OF k1(2)] bnd by auto
  have bnd2: "\<forall>r \<in> set ?rs2. ltb lo (ckey r) \<and> gtb (ckey r) hi"
    using bnd r1b set_ins_at[OF ci, of r1] by auto
  have ch2: "\<And>j. j < length ?ts2 \<Longrightarrow> bst (lob lo ?rs2 j) (hib hi ?rs2 j) (?ts2 ! j)"
  proof -
    fix j assume "j < length ?ts2"
    then have j: "j \<le> length rs + 1" using lts by simp
    have e: "?ts2 ! j = (if j < ci + 1 then (ts[ci := t1]) ! j else if j = ci + 1 then rt1 else (ts[ci := t1]) ! (j - 1))"
      using ci lts j by (intro ins_at_nth) simp_all
    consider "j < ci" | "j = ci" | "j = ci + 1" | "ci + 1 < j" by linarith
    then show "bst (lob lo ?rs2 j) (hib hi ?rs2 j) (?ts2 ! j)"
    proof cases
      case 1
      then show ?thesis unfolding e using ch[of j] ci lts j by (simp add: lob_ins hib_ins)
    next
      case 2
      then show ?thesis unfolding e using b1 ci lts j by (simp add: lob_ins hib_ins)
    next
      case 3
      then show ?thesis unfolding e using b2 ci lts j by (simp add: lob_ins hib_ins)
    next
      case 4
      then show ?thesis unfolding e using ch[of "j - 1"] ci lts j by (simp add: lob_ins hib_ins)
    qed
  qed
  show ?thesis using s2 bnd2 ch2 lts by simp
qed

lemma bst_node_split:
  assumes b: "bst lo hi (Nd i rs ts)" and m: "m < length rs"
  shows "bst lo (Some (ckey (rs ! m))) (Nd i1 (take m rs) (take (m + 1) ts))"
    and "bst (Some (ckey (rs ! m))) hi (Nd i2 (drop (m + 1) rs) (drop (m + 1) ts))"
    and "ltb lo (ckey (rs ! m))" and "gtb (ckey (rs ! m)) hi"
proof -
  have srt: "sorted_wrt (<) (map ckey rs)" and lts: "length ts = length rs + 1"
    and bnd: "\<forall>r \<in> set rs. ltb lo (ckey r) \<and> gtb (ckey r) hi"
    and ch: "\<And>j. j < length ts \<Longrightarrow> bst (lob lo rs j) (hib hi rs j) (ts ! j)"
    using b by simp_all
  show "ltb lo (ckey (rs ! m))" "gtb (ckey (rs ! m)) hi" using bnd m by simp_all
  have "sorted_wrt (<) (map ckey (take m rs))" using srt by (simp add: sorted_wrt_map sorted_wrt_take)
  moreover have "\<forall>r \<in> set (take m rs). ltb lo (ckey r) \<and> gtb (ckey r) (Some (ckey (rs ! m)))"
  proof
    fix r assume "r \<in> set (take m rs)"
    then obtain j where j: "j < m" "r = rs ! j" using m by (auto simp: in_set_conv_nth)
    then show "ltb lo (ckey r) \<and> gtb (ckey r) (Some (ckey (rs ! m)))"
      using sorted_nth[OF srt j(1) m] bnd m by simp
  qed
  moreover have "\<And>j. j < m + 1 \<Longrightarrow>
      bst (lob lo (take m rs) j) (hib (Some (ckey (rs ! m))) (take m rs) j) (take (m + 1) ts ! j)"
  proof -
    fix j assume j: "j < m + 1"
    have "lob lo (take m rs) j = lob lo rs j" using j by (simp add: lob_def)
    moreover have "hib (Some (ckey (rs ! m))) (take m rs) j = hib hi rs j"
      using j m by (auto simp: hib_def less_Suc_eq)
    ultimately show "bst (lob lo (take m rs) j) (hib (Some (ckey (rs ! m))) (take m rs) j) (take (m + 1) ts ! j)"
      using ch[of j] j m lts by simp
  qed
  ultimately show "bst lo (Some (ckey (rs ! m))) (Nd i1 (take m rs) (take (m + 1) ts))"
    using m lts by (simp add: min_def)
  have "sorted_wrt (<) (map ckey (drop (m + 1) rs))" using srt by (simp add: sorted_wrt_map sorted_wrt_drop)
  moreover have "\<forall>r \<in> set (drop (m + 1) rs). ltb (Some (ckey (rs ! m))) (ckey r) \<and> gtb (ckey r) hi"
  proof
    fix r assume "r \<in> set (drop (m + 1) rs)"
    then obtain j where j: "j < length rs - (m + 1)" "r = rs ! (m + 1 + j)"
      using m by (auto simp: in_set_conv_nth)
    then show "ltb (Some (ckey (rs ! m))) (ckey r) \<and> gtb (ckey r) hi"
      using sorted_nth[OF srt, of m "m + 1 + j"] bnd m by simp
  qed
  moreover have "\<And>j. j < length ts - (m + 1) \<Longrightarrow>
      bst (lob (Some (ckey (rs ! m))) (drop (m + 1) rs) j) (hib hi (drop (m + 1) rs) j) (drop (m + 1) ts ! j)"
  proof -
    fix j assume j: "j < length ts - (m + 1)"
    have "lob (Some (ckey (rs ! m))) (drop (m + 1) rs) j = lob lo rs (m + 1 + j)"
      using j m lts by (auto simp: lob_def)
    moreover have "hib hi (drop (m + 1) rs) j = hib hi rs (m + 1 + j)"
      using j m lts by (auto simp: hib_def)
    ultimately show "bst (lob (Some (ckey (rs ! m))) (drop (m + 1) rs) j) (hib hi (drop (m + 1) rs) j) (drop (m + 1) ts ! j)"
      using ch[of "m + 1 + j"] j m lts by simp
  qed
  ultimately show "bst (Some (ckey (rs ! m))) hi (Nd i2 (drop (m + 1) rs) (drop (m + 1) ts))"
    using m lts by simp
qed

lemma Union_nth_split:
  "ci < length ts \<Longrightarrow>
   (\<Union>t \<in> set ts. g t) = g (ts ! ci) \<union> (\<Union>t \<in> set (take ci ts) \<union> set (drop (Suc ci) ts). g t)"
proof -
  assume ci: "ci < length ts"
  have "set ts = set (take ci ts @ ts ! ci # drop (Suc ci) ts)"
    by (simp only: id_take_nth_drop[OF ci, symmetric])
  then show ?thesis by auto
qed

lemma Union_update_split:
  "ci < length ts \<Longrightarrow>
   (\<Union>t \<in> set (ts[ci := t']). g t) = g t' \<union> (\<Union>t \<in> set (take ci ts) \<union> set (drop (Suc ci) ts). g t)"
  by (simp only: upd_conv_take_nth_drop) auto

lemma Union_ins_update_split:
  "ci < length ts \<Longrightarrow>
   (\<Union>t \<in> set (ins_at (ci + 1) rt (ts[ci := t'])). g t) =
     g t' \<union> g rt \<union> (\<Union>t \<in> set (take ci ts) \<union> set (drop (Suc ci) ts). g t)"
proof -
  assume ci: "ci < length ts"
  have "set (ins_at (ci + 1) rt (ts[ci := t'])) = insert rt (set (ts[ci := t']))"
    using ci by (intro set_ins_at) simp
  then show ?thesis using Union_update_split[OF ci, of g t'] by auto
qed

lemma ents_stay:
  assumes ci: "ci < length ts" and e: "ents t' = insert r (ents (ts ! ci))"
  shows "ents (Nd i rs (ts[ci := t'])) = insert r (ents (Nd i rs ts))"
  using Union_update_split[OF ci, of ents t'] Union_nth_split[OF ci, of ents] e by auto

lemma ents_virtual:
  assumes ci: "ci < length ts" "ci \<le> length rs"
    and e: "ents t' \<union> {r'} \<union> ents rt = insert r (ents (ts ! ci))"
  shows "ents (Nd i' (ins_at ci r' rs) (ins_at (ci + 1) rt (ts[ci := t']))) = insert r (ents (Nd i rs ts))"
proof -
  have a: "set (ins_at ci r' rs) = insert r' (set rs)" using ci by (intro set_ins_at)
  show ?thesis
    unfolding ents.simps a Union_ins_update_split[OF ci(1), of ents] Union_nth_split[OF ci(1), of ents]
    using e by blast
qed

lemma ents_split:
  assumes m: "m < length rs"
  shows "ents (Nd i1 (take m rs) (take (m + 1) ts)) \<union> {rs ! m} \<union>
         ents (Nd i2 (drop (m + 1) rs) (drop (m + 1) ts)) = ents (Nd i rs ts)"
proof -
  have "set rs = set (take m rs @ rs ! m # drop (Suc m) rs)"
    by (simp only: id_take_nth_drop[OF m, symmetric])
  moreover have "set ts = set (take (m + 1) ts @ drop (m + 1) ts)" by simp
  ultimately show ?thesis unfolding ents.simps set_append by auto
qed

lemma bst_update:
  assumes b: "bst lo hi (Nd i rs ts)" and ci: "ci < length ts"
    and b1: "bst (lob lo rs ci) (hib hi rs ci) t1"
  shows "bst lo hi (Nd i rs (ts[ci := t1]))"
  using assms by (auto simp: nth_list_update)

lemma ains_bst:
  "bst lo hi t \<Longrightarrow> ltb lo (ckey r) \<Longrightarrow> gtb (ckey r) hi \<Longrightarrow>
   (case ains c r t n of
      Dup \<Rightarrow> True
    | Stay t' n' \<Rightarrow> bst lo hi t' \<and> ents t' = insert r (ents t)
    | Up t' r' rt n' \<Rightarrow> bst lo (Some (ckey r')) t' \<and> bst (Some (ckey r')) hi rt \<and>
        ltb lo (ckey r') \<and> gtb (ckey r') hi \<and> ents t' \<union> {r'} \<union> ents rt = insert r (ents t))"
proof (induction t arbitrary: lo hi)
  case Lf
  then show ?case by simp
next
  case (Nd i rs ts)
  note b = Nd.prems(1)
  have srt: "sorted_wrt (<) (map ckey rs)" and lts: "length ts = length rs + 1"
    using b by simp_all
  have kr: "cstr (key r) = ckey r" by (simp add: ckey_def)
  show ?case
  proof (cases rule: ains_Nd_cases[of rs r c i ts n])
    case (found l)
    then show ?thesis by simp
  next
    case (oob l)
    then show ?thesis by simp
  next
    case (dup l)
    then show ?thesis by simp
  next
    case (stay l t' n')
    let ?ci = "nat (l + 1)"
    have cb: "ltb (lob lo rs ?ci) (ckey r)" "gtb (ckey r) (hib hi rs ?ci)"
      using child_bounds[OF srt stay(1), of lo hi] Nd.prems(2,3) by (simp_all add: kr)
    have bc: "bst (lob lo rs ?ci) (hib hi rs ?ci) (ts ! ?ci)" using b stay(2) by simp
    have ih: "bst (lob lo rs ?ci) (hib hi rs ?ci) t' \<and> ents t' = insert r (ents (ts ! ?ci))"
      using Nd.IH[OF nth_mem[OF stay(2)] bc cb] stay(3) by simp
    have "bst lo hi (Nd i rs (ts[?ci := t']))" by (rule bst_update[OF b stay(2) conjunct1[OF ih]])
    moreover have "ents (Nd i rs (ts[?ci := t'])) = insert r (ents (Nd i rs ts))"
      using ents_stay[OF stay(2)] ih by simp
    ultimately show ?thesis unfolding stay(4) by (simp only: ins_res.case)
  next
    case (room l t' r' rt n')
    let ?ci = "nat (l + 1)"
    have ci: "?ci \<le> length rs" using room(2) lts by simp
    have cb: "ltb (lob lo rs ?ci) (ckey r)" "gtb (ckey r) (hib hi rs ?ci)"
      using child_bounds[OF srt room(1), of lo hi] Nd.prems(2,3) by (simp_all add: kr)
    have bc: "bst (lob lo rs ?ci) (hib hi rs ?ci) (ts ! ?ci)" using b room(2) by simp
    have ih: "bst (lob lo rs ?ci) (Some (ckey r')) t'" "bst (Some (ckey r')) (hib hi rs ?ci) rt"
      "ltb (lob lo rs ?ci) (ckey r')" "gtb (ckey r') (hib hi rs ?ci)"
      "ents t' \<union> {r'} \<union> ents rt = insert r (ents (ts ! ?ci))"
      using Nd.IH[OF nth_mem[OF room(2)] bc cb] room(3) by simp_all
    have "bst lo hi (Nd i (ins_at ?ci r' rs) (ins_at (?ci + 1) rt (ts[?ci := t'])))"
      by (rule bst_node_insert[OF b ci ih(1,2,3,4)])
    moreover have "ents (Nd i (ins_at ?ci r' rs) (ins_at (?ci + 1) rt (ts[?ci := t']))) =
        insert r (ents (Nd i rs ts))"
      by (rule ents_virtual[OF room(2) ci ih(5)])
    ultimately show ?thesis unfolding room(5) by (simp only: ins_res.case)
  next
    case (full l t' r' rt n')
    let ?ci = "nat (l + 1)"
    let ?m = "nat (Mx c div 2)"
    let ?rs2 = "ins_at ?ci r' rs" and ?ts2 = "ins_at (?ci + 1) rt (ts[?ci := t'])"
    have ci: "?ci \<le> length rs" using full(2) lts by simp
    have cb: "ltb (lob lo rs ?ci) (ckey r)" "gtb (ckey r) (hib hi rs ?ci)"
      using child_bounds[OF srt full(1), of lo hi] Nd.prems(2,3) by (simp_all add: kr)
    have bc: "bst (lob lo rs ?ci) (hib hi rs ?ci) (ts ! ?ci)" using b full(2) by simp
    have ih: "bst (lob lo rs ?ci) (Some (ckey r')) t'" "bst (Some (ckey r')) (hib hi rs ?ci) rt"
      "ltb (lob lo rs ?ci) (ckey r')" "gtb (ckey r') (hib hi rs ?ci)"
      "ents t' \<union> {r'} \<union> ents rt = insert r (ents (ts ! ?ci))"
      using Nd.IH[OF nth_mem[OF full(2)] bc cb] full(3) by simp_all
    have bv: "bst lo hi (Nd i ?rs2 ?ts2)"
      by (rule bst_node_insert[OF b ci ih(1,2,3,4)])
    have ev: "ents (Nd i ?rs2 ?ts2) = insert r (ents (Nd i rs ts))"
      by (rule ents_virtual[OF full(2) ci ih(5)])
    have m: "?m < length ?rs2" using full(4) by simp
    have sp: "bst lo (Some (ckey (?rs2 ! ?m))) (Nd i (take ?m ?rs2) (take (?m + 1) ?ts2))"
      "bst (Some (ckey (?rs2 ! ?m))) hi (Nd (n' + 1) (drop (?m + 1) ?rs2) (drop (?m + 1) ?ts2))"
      "ltb lo (ckey (?rs2 ! ?m))" "gtb (ckey (?rs2 ! ?m)) hi"
      by (rule bst_node_split[OF bv m])+
    have es: "ents (Nd i (take ?m ?rs2) (take (?m + 1) ?ts2)) \<union> {?rs2 ! ?m} \<union>
         ents (Nd (n' + 1) (drop (?m + 1) ?rs2) (drop (?m + 1) ?ts2)) = insert r (ents (Nd i rs ts))"
      using ents_split[OF m, of i ?ts2 "n' + 1" i] ev by simp
    show ?thesis unfolding full(5) using sp es by (simp only: ins_res.case)
  qed
qed

lemma alook_sound: "alook t k = Some r \<Longrightarrow> r \<in> ents t \<and> ckey r = cstr k"
proof (induction t)
  case Lf
  then show ?case by simp
next
  case (Nd i rs ts)
  obtain fnd l where sn: "searchNode (anode rs) k = (fnd, l)" by force
  show ?case
  proof (cases fnd)
    case True
    then have "r = rs ! nat l" using Nd.prems sn by simp
    then show ?thesis using asearch_found[of rs k l] sn True by simp
  next
    case False
    then have ci: "nat (l + 1) < length ts" and a: "alook (ts ! nat (l + 1)) k = Some r"
      using Nd.prems sn by (simp_all split: if_splits)
    from Nd.IH[OF nth_mem[OF ci] a] show ?thesis using nth_mem[OF ci] by auto
  qed
qed

lemma rec_not_in_child:
  assumes srt: "sorted_wrt (<) (map ckey rs)" and a: "a < length rs" and j: "j \<le> length rs"
    and b: "ltb (lob lo rs j) (ckey (rs ! a))" "gtb (ckey (rs ! a)) (hib hi rs j)"
  shows False
proof (cases "a < j")
  case True
  then have j0: "j \<noteq> 0" "j - 1 < length rs" using j by auto
  have "a < j - 1 \<or> a = j - 1" using True by linarith
  then show False using b(1) j0 sorted_nth[OF srt, of a "j - 1"] by (auto simp: lob_def)
next
  case False
  then have jl: "j < length rs" using a by simp
  have "j < a \<or> j = a" using False by linarith
  then show False using b(2) jl a sorted_nth[OF srt, of j a] by (auto simp: hib_def)
qed

lemma alook_complete:
  "bst lo hi t \<Longrightarrow> r \<in> ents t \<Longrightarrow> ckey r = cstr k \<Longrightarrow> alook t k = Some r"
proof (induction t arbitrary: lo hi)
  case Lf
  then show ?case by simp
next
  case (Nd i rs ts)
  note b = Nd.prems(1)
  have srt: "sorted_wrt (<) (map ckey rs)" and lts: "length ts = length rs + 1"
    using b by simp_all
  obtain fnd l where sn: "searchNode (anode rs) k = (fnd, l)" by force
  show ?case
  proof (cases "r \<in> set rs")
    case True
    then obtain a where a: "a < length rs" "r = rs ! a" by (auto simp: in_set_conv_nth)
    have f: "fnd" using asearch_notin[OF srt, of k l] sn True Nd.prems(3) by (cases fnd) force+
    note fo = asearch_found[of rs k l]
    have l: "nat l < length rs" "ckey (rs ! nat l) = cstr k" using fo sn f by simp_all
    have "nat l = a"
    proof (rule ccontr)
      assume "nat l \<noteq> a"
      then have "nat l < a \<or> a < nat l" by linarith
      then show False using sorted_nth[OF srt, of "nat l" a] sorted_nth[OF srt, of a "nat l"]
        l a Nd.prems(3) by auto
    qed
    then show ?thesis using sn f a by simp
  next
    case False
    then obtain j where j: "j < length ts" "r \<in> ents (ts ! j)"
      using Nd.prems(2) by (auto simp: in_set_conv_nth)
    have bc: "bst (lob lo rs j) (hib hi rs j) (ts ! j)" using b j(1) by simp
    have rb: "ltb (lob lo rs j) (cstr k)" "gtb (cstr k) (hib hi rs j)"
      using ents_bounds[OF bc j(2)] Nd.prems(3) by simp_all
    have jl: "j \<le> length rs" using j lts by simp
    have nf: "\<not> fnd"
    proof
      assume f: "fnd"
      note fo = asearch_found[of rs k l]
      have l: "nat l < length rs" "ckey (rs ! nat l) = cstr k" using fo sn f by simp_all
      show False using rec_not_in_child[OF srt l(1) jl, of lo hi] rb l(2) by simp
    qed
    then have sn': "searchNode (anode rs) k = (False, l)" using sn by simp
    have e: "j = nat (l + 1)" by (rule child_unique[OF srt sn' jl rb])
    have "alook (ts ! j) k = Some r" by (rule Nd.IH[OF nth_mem[OF j(1)] bc j(2) Nd.prems(3)])
    then show ?thesis using sn' e j(1) by simp
  qed
qed

lemma ains_Dup_iff:
  "bst lo hi t \<Longrightarrow> (ains c r t n = Dup) = (alook t (key r) \<noteq> None)"
proof (induction t arbitrary: lo hi)
  case Lf
  then show ?case by simp
next
  case (Nd i rs ts)
  note b = Nd.prems(1)
  have lts: "length ts = length rs + 1" using b by simp
  show ?case
  proof (cases rule: ains_Nd_cases[of rs r c i ts n])
    case (found l)
    then show ?thesis by simp
  next
    case (oob l)
    then show ?thesis using asearch_range[OF oob(1)] lts by simp
  next
    case (dup l)
    have bc: "bst (lob lo rs (nat (l + 1))) (hib hi rs (nat (l + 1))) (ts ! nat (l + 1))"
      using b dup(2) by simp
    show ?thesis using Nd.IH[OF nth_mem[OF dup(2)] bc] dup by simp
  next
    case (stay l t' n')
    have bc: "bst (lob lo rs (nat (l + 1))) (hib hi rs (nat (l + 1))) (ts ! nat (l + 1))"
      using b stay(2) by simp
    show ?thesis using Nd.IH[OF nth_mem[OF stay(2)] bc] stay by simp
  next
    case (room l t' r' rt n')
    have bc: "bst (lob lo rs (nat (l + 1))) (hib hi rs (nat (l + 1))) (ts ! nat (l + 1))"
      using b room(2) by simp
    show ?thesis using Nd.IH[OF nth_mem[OF room(2)] bc] room by simp
  next
    case (full l t' r' rt n')
    have bc: "bst (lob lo rs (nat (l + 1))) (hib hi rs (nat (l + 1))) (ts ! nat (l + 1))"
      using b full(2) by simp
    show ?thesis using Nd.IH[OF nth_mem[OF full(2)] bc] full by simp
  qed
qed

lemma set_update_sub: "set (ts[ci := t']) \<subseteq> insert t' (set ts)"
  by (rule set_update_subset_insert)

lemma set_ins_update_sub: "set (ins_at j rt (ts[ci := t'])) \<subseteq> insert rt (insert t' (set ts))"
  using set_ins_at_sub[of j rt "ts[ci := t']"] set_update_sub[of ts ci t'] by blast

lemma ains_hbal:
  "hbal h t \<Longrightarrow>
   (case ains c r t n of
      Dup \<Rightarrow> True
    | Stay t' n' \<Rightarrow> hbal h t'
    | Up t' r' rt n' \<Rightarrow> hbal h t' \<and> hbal h rt)"
proof (induction t arbitrary: h)
  case Lf
  then show ?case by (cases h) simp_all
next
  case (Nd i rs ts)
  obtain h' where h: "h = Suc h'" using Nd.prems by (cases h) simp_all
  have ch: "\<forall>t \<in> set ts. hbal h' t" using Nd.prems h by simp
  show ?case
  proof (cases rule: ains_Nd_cases[of rs r c i ts n])
    case (found l)
    then show ?thesis by simp
  next
    case (oob l)
    then show ?thesis by simp
  next
    case (dup l)
    then show ?thesis by simp
  next
    case (stay l t' n')
    have "hbal h' t'" using Nd.IH[OF nth_mem[OF stay(2)], of h'] ch stay(2,3) by simp
    then have "\<forall>t \<in> set (ts[nat (l + 1) := t']). hbal h' t"
      using ch set_update_sub[of ts "nat (l + 1)" t'] by blast
    then show ?thesis unfolding stay(4) h by simp
  next
    case (room l t' r' rt n')
    have "hbal h' t' \<and> hbal h' rt" using Nd.IH[OF nth_mem[OF room(2)], of h'] ch room(2,3) by simp
    then have "\<forall>t \<in> set (ins_at (nat (l + 1) + 1) rt (ts[nat (l + 1) := t'])). hbal h' t"
      using ch set_ins_update_sub[of "nat (l + 1) + 1" rt ts "nat (l + 1)" t'] by blast
    then show ?thesis unfolding room(5) h by simp
  next
    case (full l t' r' rt n')
    have "hbal h' t' \<and> hbal h' rt" using Nd.IH[OF nth_mem[OF full(2)], of h'] ch full(2,3) by simp
    then have a: "\<forall>t \<in> set (ins_at (nat (l + 1) + 1) rt (ts[nat (l + 1) := t'])). hbal h' t"
      using ch set_ins_update_sub[of "nat (l + 1) + 1" rt ts "nat (l + 1)" t'] by blast
    show ?thesis unfolding full(5) h using a
      by (auto dest: in_set_takeD in_set_dropD)
  qed
qed

lemma ains_cnt:
  "cnt_ok c isroot t \<Longrightarrow> 2 \<le> Mx c \<Longrightarrow>
   (case ains c r t n of
      Dup \<Rightarrow> True
    | Stay t' n' \<Rightarrow> cnt_ok c isroot t'
    | Up t' r' rt n' \<Rightarrow> cnt_ok c False t' \<and> cnt_ok c False rt)"
proof (induction t arbitrary: isroot)
  case Lf
  then show ?case by simp
next
  case (Nd i rs ts)
  have ch: "\<forall>t \<in> set ts. cnt_ok c False t" and lts: "length ts = length rs + 1"
    and lo: "(if isroot then 1 else Mx c div 2) \<le> int (length rs)" and hi: "int (length rs) \<le> Mx c"
    using Nd.prems by simp_all
  show ?case
  proof (cases rule: ains_Nd_cases[of rs r c i ts n])
    case (found l)
    then show ?thesis by simp
  next
    case (oob l)
    then show ?thesis by simp
  next
    case (dup l)
    then show ?thesis by simp
  next
    case (stay l t' n')
    have "cnt_ok c False t'"
      using Nd.IH[OF nth_mem[OF stay(2)], of False] ch stay(2,3) Nd.prems(2) by simp
    then have "\<forall>t \<in> set (ts[nat (l + 1) := t']). cnt_ok c False t"
      using ch set_update_sub[of ts "nat (l + 1)" t'] by blast
    then show ?thesis unfolding stay(4) using lts lo hi by simp
  next
    case (room l t' r' rt n')
    have "cnt_ok c False t' \<and> cnt_ok c False rt"
      using Nd.IH[OF nth_mem[OF room(2)], of False] ch room(2,3) Nd.prems(2) by simp
    then have "\<forall>t \<in> set (ins_at (nat (l + 1) + 1) rt (ts[nat (l + 1) := t'])). cnt_ok c False t"
      using ch set_ins_update_sub[of "nat (l + 1) + 1" rt ts "nat (l + 1)" t'] by blast
    then show ?thesis unfolding room(5) using lts lo hi room(4) by auto
  next
    case (full l t' r' rt n')
    let ?ts2 = "ins_at (nat (l + 1) + 1) rt (ts[nat (l + 1) := t'])"
    let ?m = "nat (Mx c div 2)"
    have "cnt_ok c False t' \<and> cnt_ok c False rt"
      using Nd.IH[OF nth_mem[OF full(2)], of False] ch full(2,3) Nd.prems(2) by simp
    then have a: "\<forall>t \<in> set ?ts2. cnt_ok c False t"
      using ch set_ins_update_sub[of "nat (l + 1) + 1" rt ts "nat (l + 1)" t'] by blast
    have a1: "\<forall>t \<in> set (take (?m + 1) ?ts2). cnt_ok c False t" using a by (auto dest: in_set_takeD)
    have a2: "\<forall>t \<in> set (drop (?m + 1) ?ts2). cnt_ok c False t" using a by (auto dest: in_set_dropD)
    have len: "int (length rs) = Mx c" using hi full(4) by simp
    have m: "int ?m = Mx c div 2" "?m \<le> length rs" using Nd.prems(2) len by auto
    have l1: "length (take ?m (ins_at (nat (l + 1)) r' rs)) = ?m" using m by simp
    have l2: "length (drop (?m + 1) (ins_at (nat (l + 1)) r' rs)) = length rs - ?m" by simp
    have l3: "length (take (?m + 1) ?ts2) = ?m + 1" using m lts by simp
    have l4: "length (drop (?m + 1) ?ts2) = length rs - ?m + 1" using m(2) lts by simp
    have l5: "Mx c div 2 \<le> int (length rs - ?m)" "int (length rs - ?m) \<le> Mx c" "Mx c div 2 \<le> Mx c"
      using m len Nd.prems(2) by auto
    have L: "cnt_ok c False (Nd i (take ?m (ins_at (nat (l + 1)) r' rs)) (take (?m + 1) ?ts2))"
      unfolding cnt_ok.simps l1 l3 m(1) if_False by (intro conjI order_refl refl l5(3) a1)
    have R: "cnt_ok c False (Nd (n' + 1) (drop (?m + 1) (ins_at (nat (l + 1)) r' rs)) (drop (?m + 1) ?ts2))"
      unfolding cnt_ok.simps l2 l4 if_False by (intro conjI l5(1) l5(2) refl a2)
    show ?thesis unfolding full(5) ins_res.case using L R by (rule conjI)
  qed
qed

lemma distinct_replace:
  assumes d: "distinct (A @ B @ C)" and d': "distinct B'" and sub: "set B' \<subseteq> set B \<union> N"
    and n: "N \<inter> (set A \<union> set C) = {}"
  shows "distinct (A @ B' @ C)"
  using assms by auto

lemma idl_update:
  "ci < length ts \<Longrightarrow>
   concat (map idl (ts[ci := t'])) =
     concat (map idl (take ci ts)) @ idl t' @ concat (map idl (drop (Suc ci) ts))"
  by (simp add: upd_conv_take_nth_drop)

lemma ins_update_conv:
  "ci < length ts \<Longrightarrow> ins_at (ci + 1) rt (ts[ci := t']) = take ci ts @ t' # rt # drop (Suc ci) ts"
  by (simp add: ins_at_def upd_conv_take_nth_drop min_def)

lemma idl_ins_update:
  "ci < length ts \<Longrightarrow>
   concat (map idl (ins_at (ci + 1) rt (ts[ci := t']))) =
     concat (map idl (take ci ts)) @ (idl t' @ idl rt) @ concat (map idl (drop (Suc ci) ts))"
  using ins_update_conv[of ci ts rt t'] by simp

lemma okids_replace:
  assumes ok: "okids (Nd i rs ts)" and sub: "ids (Nd i rs ts) \<subseteq> {1..n}" and ci: "ci < length ts"
    and d': "distinct B'" and new: "set B' \<subseteq> ids (ts ! ci) \<union> {n + 1 .. n1}"
  shows "distinct (i # concat (map idl (take ci ts)) @ B' @ concat (map idl (drop (Suc ci) ts)))"
proof -
  let ?A = "i # concat (map idl (take ci ts))" and ?C = "concat (map idl (drop (Suc ci) ts))"
  have d: "distinct (?A @ idl (ts ! ci) @ ?C)"
    using ok idl_split[OF ci] by (simp add: okids_def)
  have "set ?A \<union> set ?C \<subseteq> ids (Nd i rs ts)"
    by (auto simp: set_idl dest: in_set_takeD in_set_dropD)
  then have n: "{n + 1 .. n1} \<inter> (set ?A \<union> set ?C) = {}" using sub by fastforce
  have s: "set B' \<subseteq> set (idl (ts ! ci)) \<union> {n + 1 .. n1}" using new by (simp add: set_idl)
  from distinct_replace[OF d d' s n] show ?thesis by simp
qed

lemma okids_split:
  assumes ok: "okids (Nd i rs ts)" and x: "x \<notin> ids (Nd i rs ts)"
  shows "okids (Nd i rs1 (take k ts))" "okids (Nd x rs2 (drop k ts))"
    "ids (Nd i rs1 (take k ts)) \<inter> ids (Nd x rs2 (drop k ts)) = {}"
proof -
  have e: "concat (map idl ts) = concat (map idl (take k ts)) @ concat (map idl (drop k ts))"
    by (metis append_take_drop_id concat_append map_append)
  have d: "distinct (i # concat (map idl (take k ts)) @ concat (map idl (drop k ts)))"
    using ok e by (simp add: okids_def)
  have xs: "x \<noteq> i" "x \<notin> set (concat (map idl (take k ts)))" "x \<notin> set (concat (map idl (drop k ts)))"
    using x by (auto simp: set_idl dest: in_set_takeD in_set_dropD)
  show "okids (Nd i rs1 (take k ts))" using d by (simp add: okids_def)
  show "okids (Nd x rs2 (drop k ts))" using d xs by (simp add: okids_def)
  have "set (idl (Nd i rs1 (take k ts))) \<inter> set (idl (Nd x rs2 (drop k ts))) = {}"
    using d xs unfolding idl.simps by auto
  then show "ids (Nd i rs1 (take k ts)) \<inter> ids (Nd x rs2 (drop k ts)) = {}"
    by (simp only: set_idl)
qed

lemma ains_okids:
  "okids t \<Longrightarrow> ids t \<subseteq> {1..n} \<Longrightarrow>
   (case ains c r t n of
      Dup \<Rightarrow> True
    | Stay t' n' \<Rightarrow> okids t'
    | Up t' r' rt n' \<Rightarrow> okids t' \<and> okids rt \<and> ids t' \<inter> ids rt = {})"
proof (induction t)
  case Lf
  then show ?case by (simp add: okids_def)
next
  case (Nd i rs ts)
  note ok = Nd.prems(1) and sub = Nd.prems(2)
  show ?case
  proof (cases rule: ains_Nd_cases[of rs r c i ts n])
    case (found l)
    then show ?thesis by simp
  next
    case (oob l)
    then show ?thesis by simp
  next
    case (dup l)
    then show ?thesis by simp
  next
    case (stay l t' n')
    let ?ci = "nat (l + 1)"
    have okc: "okids (ts ! ?ci)" using okids_child[OF ok stay(2)] by simp
    have subc: "ids (ts ! ?ci) \<subseteq> {1..n}" using ids_child_sub[OF stay(2), of i rs] sub by blast
    have ih: "okids t'" using Nd.IH[OF nth_mem[OF stay(2)] okc subc] stay(3) by simp
    have new: "set (idl t') \<subseteq> ids (ts ! ?ci) \<union> {n + 1 .. n'}"
      using ains_ids[where c = c and r = r and t = "ts ! ?ci" and n = n] stay(3) by (simp add: set_idl)
    have d: "distinct (idl t')" using ih by (simp add: okids_def)
    have "okids (Nd i rs (ts[?ci := t']))"
      unfolding okids_def idl.simps idl_update[OF stay(2)]
      by (rule okids_replace[OF ok sub stay(2) d new])
    then show ?thesis unfolding stay(4) by simp
  next
    case (room l t' r' rt n')
    let ?ci = "nat (l + 1)"
    have okc: "okids (ts ! ?ci)" using okids_child[OF ok room(2)] by simp
    have subc: "ids (ts ! ?ci) \<subseteq> {1..n}" using ids_child_sub[OF room(2), of i rs] sub by blast
    have ih: "okids t'" "okids rt" "ids t' \<inter> ids rt = {}"
      using Nd.IH[OF nth_mem[OF room(2)] okc subc] room(3) by simp_all
    have new: "set (idl t' @ idl rt) \<subseteq> ids (ts ! ?ci) \<union> {n + 1 .. n'}"
      using ains_ids[where c = c and r = r and t = "ts ! ?ci" and n = n] room(3) by (simp add: set_idl)
    have d: "distinct (idl t' @ idl rt)" using ih by (simp add: okids_def set_idl)
    have "okids (Nd i (ins_at ?ci r' rs) (ins_at (?ci + 1) rt (ts[?ci := t'])))"
      unfolding okids_def idl.simps idl_ins_update[OF room(2)]
      by (rule okids_replace[OF ok sub room(2) d new])
    then show ?thesis unfolding room(5) by simp
  next
    case (full l t' r' rt n')
    let ?ci = "nat (l + 1)"
    let ?m = "nat (Mx c div 2)"
    let ?rs2 = "ins_at ?ci r' rs" and ?ts2 = "ins_at (?ci + 1) rt (ts[?ci := t'])"
    have okc: "okids (ts ! ?ci)" using okids_child[OF ok full(2)] by simp
    have subc: "ids (ts ! ?ci) \<subseteq> {1..n}" using ids_child_sub[OF full(2), of i rs] sub by blast
    have ih: "okids t'" "okids rt" "ids t' \<inter> ids rt = {}"
      using Nd.IH[OF nth_mem[OF full(2)] okc subc] full(3) by simp_all
    have nn: "n \<le> n'" and new0: "ids t' \<union> ids rt \<subseteq> ids (ts ! ?ci) \<union> {n + 1 .. n'}"
      using ains_ids[where c = c and r = r and t = "ts ! ?ci" and n = n] full(3) by simp_all
    have new: "set (idl t' @ idl rt) \<subseteq> ids (ts ! ?ci) \<union> {n + 1 .. n'}"
      using new0 by (simp add: set_idl)
    have d: "distinct (idl t' @ idl rt)" using ih by (simp add: okids_def set_idl)
    have okv: "okids (Nd i ?rs2 ?ts2)"
      unfolding okids_def idl.simps idl_ins_update[OF full(2)]
      by (rule okids_replace[OF ok sub full(2) d new])
    have c1: "ids (ts ! ?ci) \<subseteq> (\<Union>t \<in> set ts. ids t)" using nth_mem[OF full(2)] by blast
    have "ids (Nd i ?rs2 ?ts2) \<subseteq> ids (Nd i rs ts) \<union> {n + 1 .. n'}"
      unfolding ids.simps
      using ids_ins_update_sub[of "?ci + 1" rt ts ?ci t'] new0 c1 by blast
    then have x: "n' + 1 \<notin> ids (Nd i ?rs2 ?ts2)" using sub nn by fastforce
    have sp: "okids (Nd i (take ?m ?rs2) (take (?m + 1) ?ts2))"
      "okids (Nd (n' + 1) (drop (?m + 1) ?rs2) (drop (?m + 1) ?ts2))"
      "ids (Nd i (take ?m ?rs2) (take (?m + 1) ?ts2)) \<inter>
       ids (Nd (n' + 1) (drop (?m + 1) ?rs2) (drop (?m + 1) ?ts2)) = {}"
      by (rule okids_split[OF okv x])+
    show ?thesis unfolding full(5) ins_res.case using sp by (intro conjI)
  qed
qed

section \<open>The lookup loop computes the abstract lookup\<close>

lemma retrieve_loop_nil: "retrieve_loop c k NilPtr s = Some (None, s)"
  by (subst retrieve_loop.simps) simp

lemma retrieve_loop_found:
  "q \<noteq> NilPtr \<Longrightarrow> snd (readNode c q s) = s1 \<Longrightarrow> searchNode (currentNode' s1) k = (True, l) \<Longrightarrow>
   retrieve_loop c k q s =
     Some (Some (take (unat (DataSize c)) (data (records (currentNode' s1) ! nat l))), s1)"
  by (subst retrieve_loop.simps) (simp add: Let_def)

lemma retrieve_loop_down:
  "q \<noteq> NilPtr \<Longrightarrow> snd (readNode c q s) = s1 \<Longrightarrow> searchNode (currentNode' s1) k = (False, l) \<Longrightarrow>
   retrieve_loop c k q s = retrieve_loop c k (branches (currentNode' s1) ! nat (l + 1)) s1"
  by (subst retrieve_loop.simps) (simp add: Let_def)

lemma retrieve_loop_refines:
  assumes w: "wf_cfg c"
  shows "rep c f t q \<Longrightarrow> file' s = Some p \<Longrightarrow> disk s p = Some f \<Longrightarrow> \<not> fail' s \<Longrightarrow>
    \<exists>cn. retrieve_loop c k q s = Some (map_option (payload c) (alook t k), s\<lparr>currentNode' := cn\<rparr>)"
proof (induction t arbitrary: q s)
  case Lf
  then have "q = NilPtr" by simp
  then have "retrieve_loop c k q s = Some (map_option (payload c) (alook Lf k), s\<lparr>currentNode' := currentNode' s\<rparr>)"
    by (simp add: retrieve_loop_nil)
  then show ?case by blast
next
  case (Nd i rs ts)
  let ?nd = "f ! nat i"
  have r: "q = i" "0 < i" "nat i < length f" "shape c ?nd" "nrecs ?nd = rs"
    "length ts = length rs + 1" "\<And>j. j < length ts \<Longrightarrow> rep c f (ts ! j) (nbrs ?nd ! j)"
    using Nd.prems(1) by simp_all
  note sl = shape_lengths[OF r(4)]
  have cnt: "count ?nd = int (length rs)" by (rule rep_count[OF r(4,5)])
  define s1 :: BTree where "s1 = s\<lparr>currentNode' := ?nd\<rparr>"
  have rd: "snd (readNode c q s) = s1" unfolding s1_def r(1)
    using r(2,3) by (intro readNode_simp[OF w Nd.prems(2,3,4)]) simp_all
  have cur: "currentNode' s1 = ?nd" by (simp add: s1_def)
  have qn: "q \<noteq> NilPtr" using r(1,2) by simp
  have sa: "searchNode ?nd k = searchNode (anode rs) k"
  proof -
    have "0 \<le> count ?nd" "nat (count ?nd) \<le> length (records ?nd)" using sl by auto
    from searchNode_anode[OF this, of k] show ?thesis using r(5) by simp
  qed
  obtain fnd l where sn: "searchNode (anode rs) k = (fnd, l)" by force
  show ?case
  proof (cases fnd)
    case True
    then have sn1: "searchNode (currentNode' s1) k = (True, l)" using sn sa cur by simp
    have l: "0 \<le> l" "nat l < length rs" using asearch_found[of rs k l] sn True by simp_all
    have "records ?nd ! nat l = rs ! nat l"
      using nrecs_nth[of l ?nd] l cnt r(5) by simp
    then have "retrieve_loop c k q s = Some (map_option (payload c) (alook (Nd i rs ts) k), s\<lparr>currentNode' := ?nd\<rparr>)"
      using retrieve_loop_found[OF qn rd sn1] sn True cur by (simp add: payload_def s1_def)
    then show ?thesis by blast
  next
    case False
    then have sn1: "searchNode (currentNode' s1) k = (False, l)" using sn sa cur by simp
    let ?ci = "nat (l + 1)"
    have ci: "?ci < length ts" using asearch_range[OF sn] r(6) by simp
    have br: "branches ?nd ! ?ci = nbrs ?nd ! ?ci" using ci r(6) cnt by (simp add: nbrs_def)
    have st: "file' s1 = Some p" "disk s1 p = Some f" "\<not> fail' s1"
      using Nd.prems(2,3,4) by (simp_all add: s1_def)
    have rc: "rep c f (ts ! ?ci) (branches ?nd ! ?ci)" using r(7)[OF ci] br by simp
    from Nd.IH[OF nth_mem[OF ci] rc st] obtain cn where
      "retrieve_loop c k (branches ?nd ! ?ci) s1 = Some (map_option (payload c) (alook (ts ! ?ci) k), s1\<lparr>currentNode' := cn\<rparr>)"
      by blast
    then have "retrieve_loop c k q s = Some (map_option (payload c) (alook (Nd i rs ts) k), s\<lparr>currentNode' := cn\<rparr>)"
      using retrieve_loop_down[OF qn rd sn1] sn False cur ci by (simp add: s1_def)
    then show ?thesis by blast
  qed
qed

section \<open>Insert at the root, open and close\<close>

lemma ckey_mk_record: "ckey (mk_record c k d) = stored_key c k"
  by (simp add: ckey_def mk_record_def stored_key_def Record0_def Let_def)

lemma key_mk_record: "cstr (key (mk_record c k d)) = stored_key c k"
  by (simp add: mk_record_def stored_key_def Record0_def Let_def)

lemma payload_mk_record:
  "length d = unat (DataSize c) \<Longrightarrow> payload c (mk_record c k d) = d"
  by (simp add: payload_def mk_record_def Record0_def Let_def memcpy_def memset0_def)

lemma insert_bt_err:
  "isOpen' s \<Longrightarrow> mode' s = Write \<Longrightarrow> pushDown c (mk_record c k d) (root' s) s = Some (Inl e) \<Longrightarrow>
   insert_bt c k d s = Some (Inl e)"
  by (simp add: insert_bt_def mk_record_def Let_def)

lemma insert_bt_stay:
  "isOpen' s \<Longrightarrow> mode' s = Write \<Longrightarrow>
   pushDown c (mk_record c k d) (root' s) s = Some (Inr ((False, nr, nrt), s1)) \<Longrightarrow>
   insert_bt c k d s = Some (Inr (s1\<lparr>numItems' := numItems' s1 + 1\<rparr>))"
  by (simp add: insert_bt_def mk_record_def Let_def)

lemma insert_bt_up:
  "isOpen' s \<Longrightarrow> mode' s = Write \<Longrightarrow>
   pushDown c (mk_record c k d) (root' s) s = Some (Inr ((True, nr, nrt), s1)) \<Longrightarrow>
   snd (writeNode c (numNodes' s1 + 1) (new_root c nr (root' s1) nrt)
          (s1\<lparr>numNodes' := numNodes' s1 + 1, root' := numNodes' s1 + 1\<rparr>)) = s2 \<Longrightarrow>
   insert_bt c k d s = Some (Inr (s2\<lparr>numItems' := numItems' s2 + 1\<rparr>))"
  by (auto simp add: insert_bt_def mk_record_def Let_def new_root_def)

lemma new_root_props:
  assumes w: "wf_cfg c"
  shows "shape c (new_root c nr q nrt)" "nrecs (new_root c nr q nrt) = [nr]"
    "nbrs (new_root c nr q nrt) = [q, nrt]"
proof -
  note m = wf_Mx[OF w]
  have l: "length (records (Node0 c)) = nat (Mx c)" "length (branches (Node0 c)) = nat (Mx c) + 1"
    using shape_lengths[OF Node0_shape[OF w]] by simp_all
  show "shape c (new_root c nr q nrt)" using m l by (simp add: shape_def new_root_def)
  have "0 < length (records (Node0 c))" using l m by simp
  then show "nrecs (new_root c nr q nrt) = [nr]"
    by (cases "records (Node0 c)") (simp_all add: nrecs_def new_root_def)
  have "2 \<le> length (branches (Node0 c))" using l m by simp
  then obtain a b bs where "branches (Node0 c) = a # b # bs"
    by (cases "branches (Node0 c)"; cases "tl (branches (Node0 c))") auto
  then show "nbrs (new_root c nr q nrt) = [q, nrt]"
    by (simp add: nbrs_def new_root_def)
qed

lemma good_numItems: "good c p f n s \<Longrightarrow> good c p f n (s\<lparr>numItems' := x\<rparr>)"
  by (simp add: good_def)

lemma stu_fields [simp]:
  "isOpen' (stu s p f n cn) = isOpen' s" "root' (stu s p f n cn) = root' s"
  "numItems' (stu s p f n cn) = numItems' s" "numNodes' (stu s p f n cn) = n"
  "mode' (stu s p f n cn) = mode' s" "can_create (stu s p f n cn) = can_create s"
  by (simp_all add: stu_def)

lemma sub_interval:
  fixes n n' :: int
  assumes a: "A \<subseteq> B \<union> {n + 1 .. n'}" and b: "B \<subseteq> {1..n}" and c: "n \<le> n'" "0 \<le> n"
  shows "A \<subseteq> {1..n'}"
proof
  fix x assume "x \<in> A"
  then have "x \<in> B \<or> (n + 1 \<le> x \<and> x \<le> n')" using a by auto
  moreover have "x \<in> B \<Longrightarrow> 1 \<le> x \<and> x \<le> n" using b by auto
  ultimately show "x \<in> {1..n'}" using c by auto
qed

lemma rep_append:
  assumes r: "rep c f t q" and sub: "ids t \<subseteq> {1..n}" and l: "length f = nat n + 1"
  shows "rep c (f @ xs) t q"
proof (rule rep_frame[OF r])
  show "\<forall>j \<in> ids t. (f @ xs) ! nat j = f ! nat j"
  proof
    fix j assume "j \<in> ids t"
    then have "1 \<le> j \<and> j \<le> n" using sub by auto
    then have "nat j < length f" using l by linarith
    then show "(f @ xs) ! nat j = f ! nat j" by (simp add: nth_append)
  qed
  show "length f \<le> length (f @ xs)" by simp
qed

lemma insert_refines:
  assumes w: "wf_cfg c" and inv: "winv c p s t"
  shows "case atop c (mk_record c k d) t (numNodes' s) of
      None \<Rightarrow> \<exists>cn. insert_bt c k d s = Some (Inl (DuplicateKey, s\<lparr>currentNode' := cn\<rparr>))
    | Some (t', n') \<Rightarrow> \<exists>s'. insert_bt c k d s = Some (Inr s') \<and> winv c p s' t' \<and>
        numNodes' s' = n' \<and> numItems' s' = numItems' s + 1"
proof -
  define n where "n = numNodes' s"
  define r where "r = mk_record c k d"
  obtain f where g: "good c p f n s" and rp: "rep c f t (root' s)"
    using inv unfolding winv_def n_def by blast
  have op: "isOpen' s" and ok: "okids t" and sub: "ids t \<subseteq> {1..n}"
    using inv unfolding winv_def n_def by simp_all
  note g' = goodD[OF g]
  note pr = pushDown_refines[OF w rp ok sub g, of r]
  note ai = ains_ids[where c = c and r = r and t = t and n = n]
  note ao = ains_okids[OF ok sub, of c r]
  show ?thesis
  proof (cases "ains c r t n")
    case Dup
    then obtain cn where "pushDown c r (root' s) s = Some (Inl (DuplicateKey, s\<lparr>currentNode' := cn\<rparr>))"
      using pr by auto
    then have "insert_bt c k d s = Some (Inl (DuplicateKey, s\<lparr>currentNode' := cn\<rparr>))"
      unfolding r_def by (rule insert_bt_err[OF op g'(4)])
    then show ?thesis using Dup by (auto simp: atop_def r_def[symmetric] n_def[symmetric])
  next
    case (Stay t' n')
    then obtain cn f' nr nrt where
      pd: "pushDown c r (root' s) s = Some (Inr ((False, nr, nrt), stu s p f' n' cn))"
      and rp': "rep c f' t' (root' s)" and len: "length f' = nat n' + 1"
      using pr by auto
    have nn: "n \<le> n'" and sub0: "ids t' \<subseteq> ids t \<union> {n + 1 .. n'}" using ai Stay by simp_all
    have sub': "ids t' \<subseteq> {1..n'}" by (rule sub_interval[OF sub0 sub nn g'(6)])
    have ok': "okids t'" using ao Stay by simp
    define s' where "s' = (stu s p f' n' cn)\<lparr>numItems' := numItems' (stu s p f' n' cn) + 1\<rparr>"
    have ib: "insert_bt c k d s = Some (Inr s')"
      unfolding s'_def using pd unfolding r_def by (rule insert_bt_stay[OF op g'(4)])
    have g2: "good c p f' n' s'" unfolding s'_def
      using nn g'(6) len by (intro good_numItems good_stu[OF g]) simp_all
    have f: "numNodes' s' = n'" "root' s' = root' s" "isOpen' s'" "numItems' s' = numItems' s + 1"
      using op by (simp_all add: s'_def)
    have "winv c p s' t'" unfolding winv_def f(1,2) using g2 rp' ok' sub' f(3) by blast
    then have "\<exists>s'. insert_bt c k d s = Some (Inr s') \<and> winv c p s' t' \<and>
        numNodes' s' = n' \<and> numItems' s' = numItems' s + 1"
      using ib f by blast
    then show ?thesis using Stay by (simp add: atop_def r_def[symmetric] n_def[symmetric])
  next
    case (Up t' r' rt n')
    then obtain cn f' where
      pd: "pushDown c r (root' s) s = Some (Inr ((True, r', rid rt), stu s p f' n' cn))"
      and rp': "rep c f' t' (root' s)" and rpr: "rep c f' rt (rid rt)" and len: "length f' = nat n' + 1"
      using pr by auto
    have nn: "n \<le> n'" and sub0: "ids t' \<union> ids rt \<subseteq> ids t \<union> {n + 1 .. n'}" using ai Up by simp_all
    have sub': "ids t' \<union> ids rt \<subseteq> {1..n'}" by (rule sub_interval[OF sub0 sub nn g'(6)])
    have ok': "okids t'" "okids rt" "ids t' \<inter> ids rt = {}" using ao Up by simp_all
    have n0: "0 \<le> n'" using nn g'(6) by simp
    define s1 where "s1 = stu s p f' n' cn"
    have g1: "good c p f' n' s1" unfolding s1_def using n0 len by (intro good_stu[OF g]) simp_all
    define NR where "NR = new_root c r' (root' s) (rid rt)"
    define s1' :: BTree where "s1' = s1\<lparr>numNodes' := n' + 1, root' := n' + 1\<rparr>"
    define s2 :: BTree where "s2 = s1'\<lparr>disk := (disk s1')(p \<mapsto> f' @ [NR])\<rparr>"
    define s' :: BTree where "s' = s2\<lparr>numItems' := numItems' s2 + 1\<rparr>"
    note g1' = goodD[OF g1]
    have a: "file' s1' = Some p" "disk s1' p = Some f'" "\<not> fail' s1'" "mode' s1' = Write"
      "0 \<le> n' + 1" "nat (n' + 1) \<le> length f'"
      using g1' n0 len by (simp_all add: s1'_def nat_add_distrib)
    have notlt: "\<not> nat (n' + 1) < length f'" using n0 len by (simp add: nat_add_distrib)
    have wr: "snd (writeNode c (n' + 1) NR s1') = s2"
      unfolding s2_def using writeNode_simp[OF w a, of NR] notlt by simp
    have s1f: "numNodes' s1 = n'" "root' s1 = root' s" by (simp_all add: s1_def)
    have ib: "insert_bt c k d s = Some (Inr s')"
      unfolding s'_def
      apply (rule insert_bt_up[OF op g'(4), where nr = r' and nrt = "rid rt" and ?s1.0 = s1])
      using pd apply (simp add: r_def s1_def)
      using wr apply (simp add: s1f NR_def s1'_def)
      done
    have f: "numNodes' s' = n' + 1" "root' s' = n' + 1" "isOpen' s'" "numItems' s' = numItems' s + 1"
      using op by (simp_all add: s'_def s2_def s1'_def s1_def)
    have g2: "good c p (f' @ [NR]) (n' + 1) s'"
      using g1' n0 len by (simp add: good_def s'_def s2_def s1'_def nat_add_distrib)
    note np = new_root_props[OF w, of r' "root' s" "rid rt", folded NR_def]
    have at: "(f' @ [NR]) ! nat (n' + 1) = NR" using n0 len by (simp add: nat_add_distrib nth_append)
    have r1: "rep c (f' @ [NR]) t' (root' s)" using rep_append[OF rp' _ len] sub' by simp
    have r2: "rep c (f' @ [NR]) rt (rid rt)" using rep_append[OF rpr _ len] sub' by simp
    have ch: "\<forall>j < length [t', rt]. rep c (f' @ [NR]) ([t', rt] ! j) (nbrs NR ! j)"
      unfolding np(3) using r1 r2 by (simp add: less_Suc_eq nth_Cons')
    have rpT: "rep c (f' @ [NR]) (Nd (n' + 1) [r'] [t', rt]) (n' + 1)"
      unfolding rep.simps at using n0 len np(1,2) ch by simp
    have nin: "n' + 1 \<notin> ids t' \<union> ids rt" using sub' by fastforce
    have okT: "okids (Nd (n' + 1) [r'] [t', rt])"
      using ok' nin by (simp add: okids_def set_idl)
    have subT: "ids (Nd (n' + 1) [r'] [t', rt]) \<subseteq> {1 .. n' + 1}"
      using sub' n0 by fastforce
    have "winv c p s' (Nd (n' + 1) [r'] [t', rt])"
      unfolding winv_def f(1,2) using g2 rpT okT subT f(3) by blast
    then have "\<exists>s'. insert_bt c k d s = Some (Inr s') \<and> winv c p s' (Nd (n' + 1) [r'] [t', rt]) \<and>
        numNodes' s' = n' + 1 \<and> numItems' s' = numItems' s + 1"
      using ib f by blast
    then show ?thesis using Up by (simp add: atop_def r_def[symmetric] n_def[symmetric])
  qed
qed

lemma ltb_None [simp]: "ltb None k" by (simp add: ltb_def)

lemma gtb_None [simp]: "gtb k None" by (simp add: gtb_def)

lemma alook_None_iff:
  "bst lo hi t \<Longrightarrow> (alook t k = None) = (cstr k \<notin> ckey ` ents t)"
proof
  assume b: "bst lo hi t" and n: "alook t k = None"
  show "cstr k \<notin> ckey ` ents t"
  proof
    assume "cstr k \<in> ckey ` ents t"
    then obtain r where "r \<in> ents t" "ckey r = cstr k" by auto
    from alook_complete[OF b this] n show False by simp
  qed
next
  assume b: "bst lo hi t" and n: "cstr k \<notin> ckey ` ents t"
  show "alook t k = None"
  proof (cases "alook t k")
    case None then show ?thesis .
  next
    case (Some r)
    from alook_sound[OF Some] n show ?thesis by force
  qed
qed

lemma atop_None_iff:
  "bst lo hi t \<Longrightarrow> (atop c r t n = None) = (ckey r \<in> ckey ` ents t)"
proof -
  assume b: "bst lo hi t"
  have "(atop c r t n = None) = (ains c r t n = Dup)"
    by (cases "ains c r t n") (simp_all add: atop_def)
  also have "\<dots> = (alook t (key r) \<noteq> None)" by (rule ains_Dup_iff[OF b])
  also have "\<dots> = (ckey r \<in> ckey ` ents t)"
    using alook_None_iff[OF b, of "key r"] by (simp add: ckey_def)
  finally show ?thesis .
qed

lemma atop_inv:
  assumes m: "2 \<le> Mx c" and t: "tinv c t" and a: "atop c r t n = Some (t', n')"
  shows "tinv c t'" "ents t' = insert r (ents t)"
proof -
  obtain h where b: "bst None None t" and h: "hbal h t" and cn: "cnt_ok c True t"
    using t unfolding tinv_def by blast
  note ab = ains_bst[OF b, of r c n, simplified]
  note ah = ains_hbal[OF h, of c r n]
  note ac = ains_cnt[OF cn m, of r n]
  have "tinv c t' \<and> ents t' = insert r (ents t)"
  proof (cases "ains c r t n")
    case Dup
    then show ?thesis using a by (simp add: atop_def)
  next
    case (Stay t1 n1)
    then have e: "t' = t1" using a by (simp add: atop_def)
    show ?thesis unfolding e tinv_def using ab ah ac Stay by auto
  next
    case (Up t1 r1 rt n1)
    then have e: "t' = Nd (n1 + 1) [r1] [t1, rt]" using a by (auto simp add: atop_def)
    have f: "bst None (Some (ckey r1)) t1" "bst (Some (ckey r1)) None rt"
      "ents t1 \<union> {r1} \<union> ents rt = insert r (ents t)"
      "hbal h t1" "hbal h rt" "cnt_ok c False t1" "cnt_ok c False rt"
      using ab ah ac Up by simp_all
    have b': "bst None None (Nd (n1 + 1) [r1] [t1, rt])"
      using f(1,2) by (simp add: less_Suc_eq lob_def hib_def nth_Cons')
    have h': "hbal (Suc h) (Nd (n1 + 1) [r1] [t1, rt])" using f(4,5) by simp
    have c': "cnt_ok c True (Nd (n1 + 1) [r1] [t1, rt])" using f(6,7) m by simp
    have e': "ents (Nd (n1 + 1) [r1] [t1, rt]) = insert r (ents t)" using f(3) by auto
    show ?thesis unfolding e tinv_def using b' h' c' e' by blast
  qed
  then show "tinv c t'" "ents t' = insert r (ents t)" by simp_all
qed

lemma insert_all_ok:
  assumes w: "wf_cfg c"
  shows "winv c p s t \<Longrightarrow> tinv c t \<Longrightarrow> distinct (map (\<lambda>kd. stored_key c (fst kd)) kds) \<Longrightarrow>
    (\<forall>kd \<in> set kds. stored_key c (fst kd) \<notin> ckey ` ents t) \<Longrightarrow>
    \<exists>s' t'. insert_all c kds s = Some (Inr s') \<and> winv c p s' t' \<and> tinv c t' \<and>
      ents t' = ents t \<union> (\<lambda>kd. mk_record c (fst kd) (snd kd)) ` set kds \<and>
      numItems' s' = numItems' s + int (length kds)"
proof (induction kds arbitrary: s t)
  case Nil
  then show ?case by auto
next
  case (Cons kd kds)
  obtain k d where kd: "kd = (k, d)" by (cases kd)
  let ?r = "mk_record c k d"
  have b: "bst None None t" using Cons.prems(2) by (simp add: tinv_def)
  have fresh: "ckey ?r \<notin> ckey ` ents t" using Cons.prems(4) kd by (simp add: ckey_mk_record)
  then have "atop c ?r t (numNodes' s) \<noteq> None" using atop_None_iff[OF b, of c ?r "numNodes' s"] by simp
  then obtain t1 n1 where at: "atop c ?r t (numNodes' s) = Some (t1, n1)" by auto
  from insert_refines[OF w Cons.prems(1), of k d] at obtain s1 where
    s1: "insert_bt c k d s = Some (Inr s1)" "winv c p s1 t1" "numItems' s1 = numItems' s + 1"
    by auto
  note ti = atop_inv[OF wf_Mx(1)[OF w] Cons.prems(2) at]
  have d: "distinct (map (\<lambda>kd. stored_key c (fst kd)) kds)" using Cons.prems(3) by simp
  have fr: "\<forall>kd \<in> set kds. stored_key c (fst kd) \<notin> ckey ` ents t1"
  proof
    fix x assume x: "x \<in> set kds"
    have "stored_key c (fst x) \<noteq> stored_key c k" using Cons.prems(3) x kd by force
    moreover have "stored_key c (fst x) \<notin> ckey ` ents t" using Cons.prems(4) x by simp
    ultimately show "stored_key c (fst x) \<notin> ckey ` ents t1"
      unfolding ti(2) by (simp add: ckey_mk_record)
  qed
  from Cons.IH[OF s1(2) ti(1) d fr] obtain s' t' where
    r: "insert_all c kds s1 = Some (Inr s')" "winv c p s' t'" "tinv c t'"
      "ents t' = ents t1 \<union> (\<lambda>kd. mk_record c (fst kd) (snd kd)) ` set kds"
      "numItems' s' = numItems' s1 + int (length kds)"
    by blast
  have "insert_all c (kd # kds) s = Some (Inr s')" using s1(1) r(1) kd by simp
  moreover have "ents t' = ents t \<union> (\<lambda>kd. mk_record c (fst kd) (snd kd)) ` set (kd # kds)"
    unfolding r(4) ti(2) using kd by auto
  moreover have "numItems' s' = numItems' s + int (length (kd # kds))" using r(5) s1(3) by simp
  ultimately show ?case using r(2,3) by blast
qed

lemma writeMetadata_metaNode: "writeMetadata c s = snd (writeNode c 0 (metaNode c s) s)"
  by (simp add: writeMetadata_def metaNode_def Let_def)

lemma metaNode_branches:
  "branches (metaNode c s) ! 0 = numItems' s" "branches (metaNode c s) ! 1 = numNodes' s"
  "branches (metaNode c s) ! 2 = root' s" "branches (metaNode c s) ! Suc 0 = numNodes' s"
proof -
  have "3 \<le> length (branches (Node0 c))" using unat_Order_ge3[of c] by (simp add: Node0_def)
  then have l: "0 < length (branches (Node0 c))" "Suc 0 < length (branches (Node0 c))"
    "2 < length (branches (Node0 c))" by auto
  show "branches (metaNode c s) ! 0 = numItems' s" "branches (metaNode c s) ! 1 = numNodes' s"
    "branches (metaNode c s) ! 2 = root' s" "branches (metaNode c s) ! Suc 0 = numNodes' s"
    using l by (simp_all add: metaNode_def Let_def)
qed

lemma writeNode_can_create [simp]: "can_create (snd (writeNode c n nd s)) = can_create s"
  by (simp add: writeNode_def split: option.splits)

lemma close_bt_fields [simp]:
  "can_create (close_bt c s) = can_create s" "\<not> isOpen' (close_bt c s)"
  by (simp_all add: close_bt_def writeMetadata_metaNode Let_def)

lemma close_bt_closed: "\<not> isOpen' s \<Longrightarrow> close_bt c s = s"
  by (simp add: close_bt_def)

lemma open_write:
  assumes w: "wf_cfg c" and cc: "can_create s0 p"
  shows "\<exists>s. open_bt c p Write s0 = (True, s) \<and> winv c p s Lf \<and> numItems' s = 0 \<and> numNodes' s = 0"
proof -
  define sc where "sc = close_bt c s0"
  define s3 :: BTree where "s3 = sc\<lparr>mode' := Write, disk := (disk sc)(p \<mapsto> []), file' := Some p, fail' := False,
     root' := NilPtr, numItems' := 0, numNodes' := 0\<rparr>"
  define s4 :: BTree where "s4 = s3\<lparr>disk := (disk s3)(p \<mapsto> [metaNode c s3])\<rparr>"
  have a: "file' s3 = Some p" "disk s3 p = Some []" "\<not> fail' s3" "mode' s3 = Write" "(0::int) \<le> 0"
    "nat 0 \<le> length ([] :: Node list)"
    by (simp_all add: s3_def)
  have wm: "writeMetadata c s3 = s4"
    unfolding writeMetadata_metaNode s4_def using writeNode_simp[OF w a, of "metaNode c s3"] by simp
  have cc': "can_create sc p" using cc by (simp add: sc_def)
  have op: "open_bt c p Write s0 = (True, s4\<lparr>isOpen' := True\<rparr>)"
    using cc' wm by (simp add: open_bt_def Let_def sc_def[symmetric] s3_def)
  have g: "good c p [metaNode c s3] 0 (s4\<lparr>isOpen' := True\<rparr>)"
    by (simp add: good_def s4_def s3_def)
  have f: "numNodes' (s4\<lparr>isOpen' := True\<rparr>) = 0" "root' (s4\<lparr>isOpen' := True\<rparr>) = NilPtr"
    "numItems' (s4\<lparr>isOpen' := True\<rparr>) = 0" "isOpen' (s4\<lparr>isOpen' := True\<rparr>)"
    by (simp_all add: s4_def s3_def)
  have "rep c [metaNode c s3] Lf NilPtr" by simp
  then have "winv c p (s4\<lparr>isOpen' := True\<rparr>) Lf"
    unfolding winv_def f(1,2) using g f(4) by (auto simp: okids_def)
  then show ?thesis using op f by blast
qed

lemma close_reopen:
  assumes w: "wf_cfg c" and inv: "winv c p s t"
  shows "\<exists>s3 f. open_bt c p Read (close_bt c s) = (True, s3) \<and> isOpen' s3 \<and> file' s3 = Some p \<and>
     disk s3 p = Some f \<and> \<not> fail' s3 \<and> rep c f t (root' s3) \<and> numItems' s3 = numItems' s \<and>
     numNodes' s3 = numNodes' s \<and> mode' s3 = Read \<and> length f = nat (numNodes' s) + 1"
proof -
  define n where "n = numNodes' s"
  obtain f where g: "good c p f n s" and rp: "rep c f t (root' s)"
    using inv unfolding winv_def n_def by blast
  have op: "isOpen' s" and sub: "ids t \<subseteq> {1..n}"
    using inv unfolding winv_def n_def by simp_all
  note g' = goodD[OF g]
  define f' where "f' = f[0 := metaNode c s]"
  have wm: "writeMetadata c s = stu s p f' n (currentNode' s)"
    unfolding writeMetadata_metaNode f'_def using good_write[OF w g, of 0] g'(6) by simp
  define sc :: BTree where "sc = (stu s p f' n (currentNode' s))\<lparr>file' := None, isOpen' := False, root' := NilPtr,
       numItems' := 0, numNodes' := 0\<rparr>"
  have cl: "close_bt c s = sc" using op g'(4) wm by (simp add: close_bt_def sc_def)
  have nc: "\<not> isOpen' sc" by (simp add: sc_def)
  define s1 :: BTree where "s1 = sc\<lparr>mode' := Read, file' := Some p, fail' := False\<rparr>"
  have a: "file' s1 = Some p" "disk s1 p = Some f'" "\<not> fail' s1" "(0::int) \<le> 0" "nat 0 < length f'"
    using g'(7) by (simp_all add: s1_def sc_def stu_def f'_def)
  have f0: "f' ! nat 0 = metaNode c s" using g'(7) by (simp add: f'_def)
  have rd: "readNode c 0 s1 = (True, s1\<lparr>currentNode' := metaNode c s\<rparr>)"
    using readNode_ok[OF w a] f0 by simp
  have dk: "disk sc p = Some f'" by (simp add: sc_def stu_def)
  define s3 :: BTree where "s3 = s1\<lparr>currentNode' := metaNode c s, numItems' := numItems' s,
      numNodes' := numNodes' s, root' := root' s, isOpen' := True\<rparr>"
  have orr: "open_bt c p Read sc = (True, s3)"
    using dk rd nc
    by (simp add: open_bt_def close_bt_closed Let_def s1_def[symmetric] metaNode_branches s3_def)
  have rp': "rep c f' t (root' s)"
  proof (rule rep_frame[OF rp])
    show "\<forall>j \<in> ids t. f' ! nat j = f ! nat j"
    proof
      fix j assume "j \<in> ids t"
      then have "1 \<le> j" using sub by auto
      then show "f' ! nat j = f ! nat j" by (simp add: f'_def)
    qed
    show "length f \<le> length f'" by (simp add: f'_def)
  qed
  have flds: "isOpen' s3" "file' s3 = Some p" "disk s3 p = Some f'" "\<not> fail' s3" "root' s3 = root' s"
    "numItems' s3 = numItems' s" "numNodes' s3 = numNodes' s" "mode' s3 = Read"
    using dk by (simp_all add: s3_def s1_def)
  have len: "length f' = nat (numNodes' s) + 1" using g'(7) by (simp add: f'_def n_def)
  show ?thesis unfolding cl using orr flds rp' len by auto
qed

lemma retrieve_refines:
  assumes w: "wf_cfg c" and op: "isOpen' s" and st: "file' s = Some p" "disk s p = Some f" "\<not> fail' s"
    and rp: "rep c f t (root' s)"
  shows "\<exists>cn. retrieve c k s =
    Some (map_option (payload c) (alook t (strncpy (memset0 (unat (KeySize c))) k (unat (KeySize c - 1)))),
          s\<lparr>currentNode' := cn\<rparr>)"
  using retrieve_loop_refines[OF w rp st] op by (simp add: retrieve_def Let_def)

lemma lookup_result:
  assumes b: "bst lo hi t" and e: "ents t = (\<lambda>kd. mk_record c (fst kd) (snd kd)) ` set kds"
    and len: "\<forall>kd \<in> set kds. length (snd kd) = unat (DataSize c)"
  shows "map_option (payload c) (alook t sk) =
         map_of (map (\<lambda>kd. (stored_key c (fst kd), snd kd)) kds) (cstr sk)"
proof (cases "map_of (map (\<lambda>kd. (stored_key c (fst kd), snd kd)) kds) (cstr sk)")
  case None
  then have "cstr sk \<notin> fst ` set (map (\<lambda>kd. (stored_key c (fst kd), snd kd)) kds)"
    unfolding map_of_eq_None_iff .
  then have "cstr sk \<notin> (\<lambda>kd. stored_key c (fst kd)) ` set kds"
    by (simp add: image_image)
  moreover have "ckey ` ents t = (\<lambda>kd. stored_key c (fst kd)) ` set kds"
    unfolding e by (simp add: image_image ckey_mk_record)
  ultimately have "cstr sk \<notin> ckey ` ents t" by simp
  then have "alook t sk = None" using alook_None_iff[OF b] by simp
  then show ?thesis using None by simp
next
  case (Some d)
  then have "(cstr sk, d) \<in> set (map (\<lambda>kd. (stored_key c (fst kd), snd kd)) kds)"
    by (rule map_of_SomeD)
  then obtain kd where kd: "kd \<in> set kds" "stored_key c (fst kd) = cstr sk" "snd kd = d" by auto
  let ?r = "mk_record c (fst kd) (snd kd)"
  have "?r \<in> ents t" unfolding e using kd(1) by blast
  moreover have "ckey ?r = cstr sk" using kd(2) by (simp add: ckey_mk_record)
  ultimately have "alook t sk = Some ?r" by (rule alook_complete[OF b])
  moreover have "payload c ?r = d"
  proof -
    have "length (snd kd) = unat (DataSize c)" using len kd(1) by blast
    from payload_mk_record[OF this, of "fst kd"] kd(3) show ?thesis by simp
  qed
  ultimately show ?thesis using Some by simp
qed

lemma rep_node_ok:
  assumes w: "wf_cfg c"
  shows "rep c f t p \<Longrightarrow> hbal h t \<Longrightarrow> cnt_ok c isroot t \<Longrightarrow> node_ok c f isroot h p"
proof (induction t arbitrary: p h isroot)
  case Lf
  then show ?case by (cases h) simp_all
next
  case (Nd i rs ts)
  obtain h' where h: "h = Suc h'" using Nd.prems(2) by (cases h) simp_all
  let ?nd = "f ! nat i"
  have r: "p = i" "0 < i" "nat i < length f" "shape c ?nd" "nrecs ?nd = rs"
    "list_all2 (rep c f) ts (nbrs ?nd)"
    using Nd.prems(1) unfolding rep_Nd_iff by simp_all
  have cnt: "count ?nd = int (length rs)" by (rule rep_count[OF r(4,5)])
  have hb: "\<forall>t \<in> set ts. hbal h' t" using Nd.prems(2) h by simp
  have co: "(if isroot then 1 else Mx c div 2) \<le> int (length rs)" "int (length rs) \<le> Mx c"
    "\<forall>t \<in> set ts. cnt_ok c False t"
    using Nd.prems(3) by simp_all
  have len: "length (nbrs ?nd) = length ts" using r(6) by (simp add: list_all2_lengthD)
  have "\<And>j. j < length (nbrs ?nd) \<Longrightarrow> node_ok c f False h' (nbrs ?nd ! j)"
  proof -
    fix j assume j: "j < length (nbrs ?nd)"
    then have jt: "j < length ts" using len by simp
    have "rep c f (ts ! j) (nbrs ?nd ! j)" using r(6) jt by (simp add: list_all2_conv_all_nth)
    then show "node_ok c f False h' (nbrs ?nd ! j)"
      using Nd.IH[OF nth_mem[OF jt]] hb co(3) nth_mem[OF jt] by blast
  qed
  then have ch: "list_all (node_ok c f False h') (nbrs ?nd)" by (simp add: list_all_length)
  show ?case unfolding h r(1) node_ok.simps wf_to_int_MinKeys[OF w] wf_to_int_MaxKeys[OF w] cnt
    using r(2,3) co(1,2) ch by simp
qed

lemma rep_stored:
  "rep c f t p \<Longrightarrow> r \<in> ents t \<Longrightarrow> r \<in> set (stored_records f)"
proof (induction t arbitrary: p)
  case Lf
  then show ?case by simp
next
  case (Nd i rs ts)
  let ?nd = "f ! nat i"
  have rp: "nat i < length f" "nrecs ?nd = rs" "list_all2 (rep c f) ts (nbrs ?nd)"
    using Nd.prems(1) unfolding rep_Nd_iff by simp_all
  show ?case
  proof (cases "r \<in> set rs")
    case True
    then have "r \<in> set (nrecs ?nd)" using rp(2) by simp
    then show ?thesis unfolding stored_records_def using nth_mem[OF rp(1)] by auto
  next
    case False
    then obtain j where j: "j < length ts" "r \<in> ents (ts ! j)"
      using Nd.prems(2) by (auto simp: in_set_conv_nth)
    have "rep c f (ts ! j) (nbrs ?nd ! j)" using rp(3) j(1) by (simp add: list_all2_conv_all_nth)
    from Nd.IH[OF nth_mem[OF j(1)] this j(2)] show ?thesis .
  qed
qed

lemma close_write:
  assumes w: "wf_cfg c" and inv: "winv c p s t"
  shows "\<exists>f. disk (close_bt c s) p = Some f \<and> length f = nat (numNodes' s) + 1"
proof -
  define n where "n = numNodes' s"
  obtain f where g: "good c p f n s" using inv unfolding winv_def n_def by blast
  have op: "isOpen' s" using inv unfolding winv_def by simp
  note g' = goodD[OF g]
  have wm: "writeMetadata c s = stu s p (f[0 := metaNode c s]) n (currentNode' s)"
    unfolding writeMetadata_metaNode using good_write[OF w g, of 0] g'(6) by simp
  have "disk (close_bt c s) p = Some (f[0 := metaNode c s])"
    using op g'(4) wm by (simp add: close_bt_def stu_def)
  then show ?thesis using g'(7) by (simp add: n_def)
qed

lemma session_after_inserts:
  assumes w: "wf_cfg c" and cc: "can_create s0 path"
    and d: "distinct (map (\<lambda>kd. stored_key c (fst kd)) kds)"
  shows "\<exists>s1 s2 t. open_bt c path Write s0 = (True, s1) \<and> insert_all c kds s1 = Some (Inr s2) \<and>
     winv c path s2 t \<and> tinv c t \<and> ents t = (\<lambda>kd. mk_record c (fst kd) (snd kd)) ` set kds \<and>
     numItems' s2 = int (length kds)"
proof -
  from open_write[OF w cc] obtain s1 where
    s1: "open_bt c path Write s0 = (True, s1)" "winv c path s1 Lf" "numItems' s1 = 0" by blast
  have t0: "tinv c Lf" unfolding tinv_def by (auto intro: exI[of _ 0])
  have fr: "\<forall>kd \<in> set kds. stored_key c (fst kd) \<notin> ckey ` ents Lf" by simp
  from insert_all_ok[OF w s1(2) t0 d fr] obtain s2 t where
    "insert_all c kds s1 = Some (Inr s2)" "winv c path s2 t" "tinv c t"
    "ents t = ents Lf \<union> (\<lambda>kd. mk_record c (fst kd) (snd kd)) ` set kds"
    "numItems' s2 = numItems' s1 + int (length kds)"
    by blast
  then show ?thesis using s1 by auto
qed

section \<open>The B-tree: claims C1, C2, C3, C5, C6 and C9\<close>

lemma wf_cfg_small: "wf_cfg cfg_small"
  by (simp add: wf_cfg_def Order_small MaxKeys_def) (simp add: cfg_small_def)

lemma stored_key_small:
  "stored_key cfg_small ''a'' = ''a''" "stored_key cfg_small ''b'' = ''b''"
  "stored_key cfg_small ''c'' = ''c''" "stored_key cfg_small ''dlong'' = ''dlo''"
  "stored_key cfg_small ''dlo'' = ''dlo''" "stored_key cfg_small ''zz'' = ''zz''"
  by (simp_all add: stored_key_def cfg_small_def strncpy_def cstr_def memset0_def)

lemma small_hyps:
  "can_create s0_small ''f''"
  "distinct (map (\<lambda>kd. stored_key cfg_small (fst kd)) kds_small)"
  "list_all (\<lambda>kd. length (snd kd) = unat (DataSize cfg_small)) kds_small"
  by (simp_all add: s0_small_def BTree0_def kds_small_def stored_key_small) (simp add: cfg_small_def)

text \<open>
  Claim C1. Open a file for writing, insert any list of pairs whose stored (truncated)
  keys are pairwise distinct and whose payloads are \<open>DataSize\<close> bytes long, close, and
  reopen the same file for reading. Every step succeeds, and \<open>retrieve k\<close> returns
  in the reopened session: with the payload inserted under the stored form of \<open>k\<close>
  when there is one, and with \<open>false\<close> (here \<open>None\<close>) for every other key. The
  configuration is one whose geometry fits the types of the code (\<open>wf_cfg\<close>).
\<close>

theorem insert_close_reopen_retrieve:
  assumes "wf_cfg c" and "can_create s0 path"
    and "distinct (map (\<lambda>kd. stored_key c (fst kd)) kds)"
    and "list_all (\<lambda>kd. length (snd kd) = unat (DataSize c)) kds"
  shows "\<exists>s1 s2 s3 s4. open_bt c path Write s0 = (True, s1) \<and> insert_all c kds s1 = Some (Inr s2) \<and>
     open_bt c path Read (close_bt c s2) = (True, s3) \<and>
     retrieve c k s3 =
       Some (map_of (map (\<lambda>kd. (stored_key c (fst kd), snd kd)) kds) (stored_key c k), s4)"
proof -
  from session_after_inserts[OF assms(1,2,3)] obtain s1 s2 t where
    s: "open_bt c path Write s0 = (True, s1)" "insert_all c kds s1 = Some (Inr s2)"
       "winv c path s2 t" "tinv c t" "ents t = (\<lambda>kd. mk_record c (fst kd) (snd kd)) ` set kds"
    by blast
  from close_reopen[OF assms(1) s(3)] obtain s3 f where
    r: "open_bt c path Read (close_bt c s2) = (True, s3)" "isOpen' s3" "file' s3 = Some path"
       "disk s3 path = Some f" "\<not> fail' s3" "rep c f t (root' s3)"
    by blast
  let ?sk = "strncpy (memset0 (unat (KeySize c))) k (unat (KeySize c - 1))"
  from retrieve_refines[OF assms(1) r(2,3,4,5,6), of k] obtain cn where
    q: "retrieve c k s3 = Some (map_option (payload c) (alook t ?sk), s3\<lparr>currentNode' := cn\<rparr>)"
    by blast
  have b: "bst None None t" using s(4) by (simp add: tinv_def)
  have len: "\<forall>kd \<in> set kds. length (snd kd) = unat (DataSize c)"
    using assms(4) by (simp add: list_all_iff)
  have "map_option (payload c) (alook t ?sk) =
        map_of (map (\<lambda>kd. (stored_key c (fst kd), snd kd)) kds) (stored_key c k)"
    using lookup_result[OF b s(5) len, of ?sk] by (simp add: stored_key_def)
  then show ?thesis using s(1,2) r(1) q by auto
qed

theorem insert_close_reopen_retrieve_witness:
  "(\<exists>s1 s2 s3 s4. open_bt cfg_small ''f'' Write s0_small = (True, s1) \<and>
     insert_all cfg_small kds_small s1 = Some (Inr s2) \<and>
     open_bt cfg_small ''f'' Read (close_bt cfg_small s2) = (True, s3) \<and>
     retrieve cfg_small ''a'' s3 = Some (Some ''y'', s4)) \<and>
   (\<exists>s1 s2 s3 s4. open_bt cfg_small ''f'' Write s0_small = (True, s1) \<and>
     insert_all cfg_small kds_small s1 = Some (Inr s2) \<and>
     open_bt cfg_small ''f'' Read (close_bt cfg_small s2) = (True, s3) \<and>
     retrieve cfg_small ''zz'' s3 = Some (None, s4))"
  using insert_close_reopen_retrieve [of cfg_small s0_small "''f''" kds_small "''a''"]
    insert_close_reopen_retrieve [of cfg_small s0_small "''f''" kds_small "''zz''"]
  by (simp add: wf_cfg_small small_hyps) (simp add: kds_small_def stored_key_small)

text \<open>
  The median rule of \<open>split\<close> at the level of the code: splitting a full node at
  any insertion position leaves \<open>MinKeys\<close> records in the node and
  \<open>MaxKeys - MinKeys\<close>, which is at least \<open>MinKeys\<close>, in its new right sibling.
\<close>

lemma split_halves:
  fixes r :: Record and rb :: int
  assumes w: "wf_cfg c"
    and st: "file' s = Some p" "disk s p = Some f" "\<not> fail' s" "mode' s = Write"
    and n: "numNodes' s = n" "0 \<le> n" "length f = nat n + 1"
    and q: "0 < q" "q \<le> n"
    and sh: "shape c (f ! nat q)"
    and cnt: "count (f ! nat q) = to_int (MaxKeys c)"
    and loc: "- 1 \<le> loc" "loc < to_int (MaxKeys c)"
  shows "\<exists>nr s' f'. split c r rb q loc s = ((nr, n + 1), s') \<and> disk s' p = Some f' \<and>
     length f' = nat n + 2 \<and>
     count (f' ! nat q) = to_int (MinKeys c) \<and>
     count (f' ! nat (n + 1)) = to_int (MaxKeys c) - to_int (MinKeys c) \<and>
     to_int (MinKeys c) \<le> count (f' ! nat (n + 1))"
proof -
  note mk = wf_to_int_MaxKeys[OF w] wf_to_int_MinKeys[OF w]
  note m = wf_Mx[OF w]
  let ?m = "nat (Mx c div 2)"
  let ?rs2 = "ins_at (nat (loc + 1)) r (nrecs (f ! nat q))"
  from split_spec[OF w st n q sh cnt[unfolded mk] loc[unfolded mk], of r rb]
  obtain L R where
    sp: "split c r rb q loc s =
            ((?rs2 ! ?m, n + 1),
             s\<lparr>disk := (disk s)(p \<mapsto> f[nat q := L] @ [R]), numNodes' := n + 1, currentNode' := L\<rparr>)"
    and lr: "shape c L" "shape c R" "nrecs L = take ?m ?rs2" "nrecs R = drop (?m + 1) ?rs2"
    by blast
  have len: "length (nrecs (f ! nat q)) = nat (Mx c)"
    using sh cnt[unfolded mk] by (simp add: nrecs_def shape_def)
  have l2: "length ?rs2 = nat (Mx c) + 1" using len by simp
  have cL: "count L = Mx c div 2"
    using rep_count[OF lr(1) lr(3)] l2 m by simp
  have cR: "count R = Mx c - Mx c div 2"
    using rep_count[OF lr(2) lr(4)] l2 m by simp
  let ?f' = "f[nat q := L] @ [R]"
  have qn: "nat q < length f" using q n by simp
  have a: "?f' ! nat q = L" using qn by (simp add: nth_append)
  have b: "?f' ! nat (n + 1) = R" using n by (simp add: nth_append nat_add_distrib)
  have "disk (s\<lparr>disk := (disk s)(p \<mapsto> ?f'), numNodes' := n + 1, currentNode' := L\<rparr>) p = Some ?f'"
    by simp
  moreover have "length ?f' = nat n + 2" using n by simp
  moreover have "count (?f' ! nat q) = to_int (MinKeys c)" unfolding a mk by (rule cL)
  moreover have "count (?f' ! nat (n + 1)) = to_int (MaxKeys c) - to_int (MinKeys c)"
    unfolding b mk by (rule cR)
  moreover have "to_int (MinKeys c) \<le> count (?f' ! nat (n + 1))" unfolding b mk cR using m by simp
  ultimately show ?thesis using sp by blast
qed

text \<open>
  Claim C2. After any sequence of distinct-key inserts from an empty tree the stored tree
  is a B-tree: \<open>node_ok\<close> holds of the root for some height \<open>h\<close>, that is, every path
  from the root reaches \<open>NilPtr\<close> after exactly \<open>h\<close> nodes, the root holds between
  \<open>1\<close> and \<open>MaxKeys\<close> records and every other node between \<open>MinKeys\<close> and
  \<open>MaxKeys\<close>. The bound on the two halves of a split node is where the median rule
  of \<open>split\<close> enters (lemmas \<open>split_halves\<close>, \<open>split_spec\<close> and \<open>ains_cnt\<close>).
\<close>

theorem insert_keeps_btree_shape:
  assumes "wf_cfg c" and "can_create s0 path"
    and "distinct (map (\<lambda>kd. stored_key c (fst kd)) kds)"
  shows "\<exists>s1 s2 f h. open_bt c path Write s0 = (True, s1) \<and> insert_all c kds s1 = Some (Inr s2) \<and>
     disk s2 path = Some f \<and> node_ok c f True h (root' s2)"
proof -
  from session_after_inserts[OF assms(1,2,3)] obtain s1 s2 t where
    s: "open_bt c path Write s0 = (True, s1)" "insert_all c kds s1 = Some (Inr s2)"
       "winv c path s2 t" "tinv c t"
    by blast
  obtain f where g: "good c path f (numNodes' s2) s2" and rp: "rep c f t (root' s2)"
    using s(3) unfolding winv_def by blast
  obtain h where h: "hbal h t" and cn: "cnt_ok c True t" using s(4) unfolding tinv_def by blast
  have "node_ok c f True h (root' s2)" by (rule rep_node_ok[OF assms(1) rp h cn])
  then show ?thesis using s(1,2) goodD(2)[OF g] by blast
qed

theorem insert_keeps_btree_shape_witness:
  "\<exists>s1 s2 f h. open_bt cfg_small ''f'' Write s0_small = (True, s1) \<and>
     insert_all cfg_small kds_small s1 = Some (Inr s2) \<and>
     disk s2 ''f'' = Some f \<and> node_ok cfg_small f True h (root' s2)"
  using insert_keeps_btree_shape [of cfg_small s0_small "''f''" kds_small]
  by (simp add: wf_cfg_small small_hyps)

text \<open>
  Claim C3. In a write session, inserting a key whose stored form is already in the tree
  throws \<open>DuplicateKey\<close>; the session the exception leaves behind has the same
  \<open>size\<close>, the same root and node count, and the same file system (so every byte of
  every node) as before the call.
\<close>

theorem duplicate_insert_rejected:
  assumes "wf_cfg c" and "can_create s0 path"
    and "distinct (map (\<lambda>kd. stored_key c (fst kd)) kds)"
    and "stored_key c k \<in> set (map (\<lambda>kd. stored_key c (fst kd)) kds)"
  shows "\<exists>s1 s2 s'. open_bt c path Write s0 = (True, s1) \<and> insert_all c kds s1 = Some (Inr s2) \<and>
     insert_bt c k d s2 = Some (Inl (DuplicateKey, s')) \<and>
     size_bt s' = size_bt s2 \<and> size_bt s2 = int (length kds) \<and> disk s' = disk s2 \<and>
     root' s' = root' s2 \<and> numNodes' s' = numNodes' s2"
proof -
  from session_after_inserts[OF assms(1,2,3)] obtain s1 s2 t where
    s: "open_bt c path Write s0 = (True, s1)" "insert_all c kds s1 = Some (Inr s2)"
       "winv c path s2 t" "tinv c t" "ents t = (\<lambda>kd. mk_record c (fst kd) (snd kd)) ` set kds"
       "numItems' s2 = int (length kds)"
    by blast
  have b: "bst None None t" using s(4) by (simp add: tinv_def)
  have "ckey ` ents t = (\<lambda>kd. stored_key c (fst kd)) ` set kds"
    unfolding s(5) by (simp add: image_image ckey_mk_record)
  then have "ckey (mk_record c k d) \<in> ckey ` ents t" using assms(4) by (simp add: ckey_mk_record)
  then have "atop c (mk_record c k d) t (numNodes' s2) = None"
    using atop_None_iff[OF b] by simp
  then obtain cn where "insert_bt c k d s2 = Some (Inl (DuplicateKey, s2\<lparr>currentNode' := cn\<rparr>))"
    using insert_refines[OF assms(1) s(3), of k d] by auto
  then show ?thesis using s(1,2,6) by (auto simp: size_bt_def)
qed

theorem duplicate_insert_rejected_witness:
  "\<exists>s1 s2 s'. open_bt cfg_small ''f'' Write s0_small = (True, s1) \<and>
     insert_all cfg_small kds_small s1 = Some (Inr s2) \<and>
     insert_bt cfg_small ''dlo'' ''q'' s2 = Some (Inl (DuplicateKey, s')) \<and>
     size_bt s' = size_bt s2 \<and> size_bt s2 = 4 \<and> disk s' = disk s2 \<and>
     root' s' = root' s2 \<and> numNodes' s' = numNodes' s2"
  using duplicate_insert_rejected [of cfg_small s0_small "''f''" kds_small "''dlo''" "''q''"]
  by (simp add: wf_cfg_small small_hyps) (simp add: kds_small_def stored_key_small)

lemma Order_std: "Order cfg_std = 86"
  by (simp add: cfg_std_def Order_def OrderCalc_def RecordSize_def)

lemma ANS_std: "ActualNodeSize cfg_std = 4092"
  by (simp add: ActualNodeSize_def MaxKeys_def Order_std) (simp add: cfg_std_def RecordSize_def)

lemma wf_cfg_std: "wf_cfg cfg_std"
  by (simp add: wf_cfg_def Order_std MaxKeys_def) (simp add: cfg_std_def)

lemma node_read_slot:
  assumes w: "wf_cfg c" and inv: "winv c p s t" and n: "0 \<le> n" "n \<le> numNodes' s"
  shows "\<exists>f. disk s p = Some f \<and> length f = nat (numNodes' s) + 1 \<and>
     file_read c f (n * uint (ActualNodeSize c)) = Some (f ! nat n) \<and>
     readNode c n s = (True, s\<lparr>currentNode' := f ! nat n\<rparr>)"
proof -
  obtain f where g: "good c p f (numNodes' s) s" using inv unfolding winv_def by blast
  note g' = goodD[OF g]
  have l: "nat n < length f" using g'(7) n by simp
  have "file_read c f (n * uint (ActualNodeSize c)) = Some (f ! nat n)"
    by (rule file_read_block[OF w n(1) l])
  moreover have "readNode c n s = (True, s\<lparr>currentNode' := f ! nat n\<rparr>)"
    by (rule readNode_ok[OF w g'(1,2,3) n(1) l])
  ultimately show ?thesis using g'(2,7) by blast
qed

lemma node_write_slot:
  assumes w: "wf_cfg c" and g: "good c p f n s" and i: "i < length f"
  shows "writeNode c (int i) nd s = (True, s\<lparr>disk := (disk s)(p \<mapsto> f[i := nd])\<rparr>)"
proof -
  note g' = goodD[OF g]
  have a: "0 \<le> int i" "nat (int i) \<le> length f" using i by simp_all
  from writeNode_ok[OF w g'(1,2,3,4) a, of nd] i show ?thesis by simp
qed

text \<open>
  Claim C5, as the code has it. Blocks are \<open>ActualNodeSize = sizeof(Node)\<close> bytes long,
  not the configured \<open>NodeSize\<close>. In a write session reached by inserts the file holds
  \<open>numNodes + 1\<close> blocks; reading or writing node \<open>i\<close> accesses the block at byte
  offset \<open>i * ActualNodeSize\<close>, which is block \<open>i\<close> of the file; and after a clean
  close the file is \<open>(numNodes + 1) * ActualNodeSize\<close> bytes long.
\<close>

theorem node_io_slots:
  assumes "wf_cfg c" and "can_create s0 path"
    and "distinct (map (\<lambda>kd. stored_key c (fst kd)) kds)"
  shows "\<exists>s1 s2 f f'. open_bt c path Write s0 = (True, s1) \<and> insert_all c kds s1 = Some (Inr s2) \<and>
     disk s2 path = Some f \<and> int (length f) = numNodes' s2 + 1 \<and>
     list_all (\<lambda>i. file_read c f (int i * uint (ActualNodeSize c)) = Some (f ! i) \<and>
                   readNode c (int i) s2 = (True, s2\<lparr>currentNode' := f ! i\<rparr>) \<and>
                   writeNode c (int i) nd s2 = (True, s2\<lparr>disk := (disk s2)(path \<mapsto> f[i := nd])\<rparr>))
       [0 ..< length f] \<and>
     disk (close_bt c s2) path = Some f' \<and>
     file_length c f' = (numNodes' s2 + 1) * uint (ActualNodeSize c)"
proof -
  from session_after_inserts[OF assms(1,2,3)] obtain s1 s2 t where
    s: "open_bt c path Write s0 = (True, s1)" "insert_all c kds s1 = Some (Inr s2)"
       "winv c path s2 t"
    by blast
  obtain g where g: "good c path g (numNodes' s2) s2" using s(3) unfolding winv_def by blast
  note g' = goodD[OF g]
  from close_write[OF assms(1) s(3)] obtain f' where
    c: "disk (close_bt c s2) path = Some f'" "length f' = nat (numNodes' s2) + 1" by blast
  have fl: "file_length c f' = (numNodes' s2 + 1) * uint (ActualNodeSize c)"
    using c(2) g'(6) by (simp add: file_length_def)
  have lg: "int (length g) = numNodes' s2 + 1" using g'(6,7) by simp
  have "\<And>i. i < length g \<Longrightarrow>
       file_read c g (int i * uint (ActualNodeSize c)) = Some (g ! i) \<and>
       readNode c (int i) s2 = (True, s2\<lparr>currentNode' := g ! i\<rparr>) \<and>
       writeNode c (int i) nd s2 = (True, s2\<lparr>disk := (disk s2)(path \<mapsto> g[i := nd])\<rparr>)"
  proof -
    fix i assume i: "i < length g"
    have a: "0 \<le> int i" "nat (int i) < length g" using i by simp_all
    have "file_read c g (int i * uint (ActualNodeSize c)) = Some (g ! nat (int i))"
      by (rule file_read_block[OF assms(1) a])
    moreover have "readNode c (int i) s2 = (True, s2\<lparr>currentNode' := g ! nat (int i)\<rparr>)"
      by (rule readNode_ok[OF assms(1) g'(1,2,3) a])
    moreover note node_write_slot[OF assms(1) g i, of nd]
    ultimately show "file_read c g (int i * uint (ActualNodeSize c)) = Some (g ! i) \<and>
       readNode c (int i) s2 = (True, s2\<lparr>currentNode' := g ! i\<rparr>) \<and>
       writeNode c (int i) nd s2 = (True, s2\<lparr>disk := (disk s2)(path \<mapsto> g[i := nd])\<rparr>)"
      by simp
  qed
  then have la: "list_all (\<lambda>i. file_read c g (int i * uint (ActualNodeSize c)) = Some (g ! i) \<and>
                   readNode c (int i) s2 = (True, s2\<lparr>currentNode' := g ! i\<rparr>) \<and>
                   writeNode c (int i) nd s2 = (True, s2\<lparr>disk := (disk s2)(path \<mapsto> g[i := nd])\<rparr>))
       [0 ..< length g]"
    by (simp add: list_all_iff)
  show ?thesis using s(1,2) g'(2) lg la c(1) fl by blast
qed

theorem node_io_slots_witness:
  "\<exists>s1 s2 f f'. open_bt cfg_small ''f'' Write s0_small = (True, s1) \<and>
     insert_all cfg_small kds_small s1 = Some (Inr s2) \<and>
     disk s2 ''f'' = Some f \<and> int (length f) = numNodes' s2 + 1 \<and>
     list_all (\<lambda>i. file_read cfg_small f (int i * 38) = Some (f ! i) \<and>
                   readNode cfg_small (int i) s2 = (True, s2\<lparr>currentNode' := f ! i\<rparr>) \<and>
                   writeNode cfg_small (int i) (Node0 cfg_small) s2 =
                     (True, s2\<lparr>disk := (disk s2)(''f'' \<mapsto> f[i := Node0 cfg_small])\<rparr>))
       [0 ..< length f] \<and>
     disk (close_bt cfg_small s2) ''f'' = Some f' \<and>
     file_length cfg_small f' = (numNodes' s2 + 1) * 38"
  using node_io_slots [of cfg_small s0_small "''f''" kds_small "Node0 cfg_small"]
  by (simp add: wf_cfg_small small_hyps ANS_small)

text \<open>
  Claim C5 as stated fails for the default geometry \<open>BTree<32, 8, 4096>\<close>: the order
  is 86 and a packed node takes \<open>4 + 85 * 40 + 86 * 8 = 4092\<close> bytes, so the file of
  an empty tree is 4092 bytes long after a clean close, not \<open>(0 + 1) * 4096\<close>.
\<close>

theorem node_block_not_NodeSize:
  "\<exists>s f. open_bt cfg_std ''f'' Write s0_std = (True, s) \<and>
     disk (close_bt cfg_std s) ''f'' = Some f \<and> numNodes' s = 0 \<and>
     file_length cfg_std f = 4092 \<and>
     (numNodes' s + 1) * uint (NodeSize cfg_std) = 4096"
proof -
  have cc: "can_create s0_std ''f''" by (simp add: s0_std_def BTree0_def)
  from open_write[OF wf_cfg_std cc] obtain s where
    s: "open_bt cfg_std ''f'' Write s0_std = (True, s)" "winv cfg_std ''f'' s Lf" "numNodes' s = 0"
    by blast
  from close_write[OF wf_cfg_std s(2)] obtain f where
    f: "disk (close_bt cfg_std s) ''f'' = Some f" "length f = nat (numNodes' s) + 1" by blast
  have "file_length cfg_std f = 4092" using f(2) s(3) by (simp add: file_length_def ANS_std)
  moreover have "(numNodes' s + 1) * uint (NodeSize cfg_std) = 4096"
    using s(3) by (simp add: cfg_std_def)
  ultimately show ?thesis using s(1,3) f(1) by blast
qed

lemma cstr_NUL_free: "NUL \<notin> set s \<Longrightarrow> cstr s = s"
  by (auto simp add: cstr_def takeWhile_eq_all_conv)

lemma stored_key_take:
  assumes w: "wf_cfg c"
  shows "stored_key c k = take (unat (KeySize c) - 1) (cstr k)"
    "stored_key c (take (unat (KeySize c) - 1) (cstr k)) = stored_key c k"
proof -
  have "0 < uint (KeySize c)" using w by (simp add: wf_cfg_def)
  then have "KeySize c \<noteq> 0" by auto
  then have K: "0 < unat (KeySize c)" by (simp add: unat_gt_0)
  show a: "stored_key c k = take (unat (KeySize c) - 1) (cstr k)"
    unfolding stored_key_def wf_unat_KeySize1[OF w] by (rule cstr_strncpy[OF K])
  have "stored_key c (take (unat (KeySize c) - 1) (cstr k))
        = take (unat (KeySize c) - 1) (cstr (take (unat (KeySize c) - 1) (cstr k)))"
    unfolding stored_key_def wf_unat_KeySize1[OF w] by (rule cstr_strncpy[OF K])
  also have "cstr (take (unat (KeySize c) - 1) (cstr k)) = take (unat (KeySize c) - 1) (cstr k)"
    by (rule cstr_NUL_free[OF take_cstr_no_NUL])
  finally show "stored_key c (take (unat (KeySize c) - 1) (cstr k)) = stored_key c k"
    using a by simp
qed

lemma retrieve_in_session:
  assumes w: "wf_cfg c" and inv: "winv c p s t"
  shows "\<exists>cn. retrieve c k s =
    Some (map_option (payload c) (alook t (strncpy (memset0 (unat (KeySize c))) k (unat (KeySize c - 1)))),
          s\<lparr>currentNode' := cn\<rparr>)"
proof -
  obtain f where g: "good c p f (numNodes' s) s" and rp: "rep c f t (root' s)"
    using inv unfolding winv_def by blast
  have op: "isOpen' s" using inv unfolding winv_def by simp
  note g' = goodD[OF g]
  show ?thesis by (rule retrieve_refines[OF w op g'(1,2,3) rp])
qed

text \<open>
  Claim C6. When a key longer than \<open>KeySize - 1\<close> bytes is inserted, the record on disk
  carries its first \<open>KeySize - 1\<close> bytes as key, and \<open>retrieve\<close> by the long key and
  by the truncated key both return \<open>true\<close> with the payload that was inserted.
\<close>

theorem long_key_truncated:
  assumes "wf_cfg c" and "can_create s0 path"
    and "distinct (map (\<lambda>kd. stored_key c (fst kd)) kds)"
    and "list_all (\<lambda>kd. length (snd kd) = unat (DataSize c)) kds"
    and "(k, d) \<in> set kds" and "unat (KeySize c) - 1 < length (cstr k)"
  shows "\<exists>s1 s2 f s3 s4. open_bt c path Write s0 = (True, s1) \<and> insert_all c kds s1 = Some (Inr s2) \<and>
     disk s2 path = Some f \<and>
     take (unat (KeySize c) - 1) (cstr k) \<in> set (map (\<lambda>r. cstr (key r)) (stored_records f)) \<and>
     retrieve c k s2 = Some (Some d, s3) \<and>
     retrieve c (take (unat (KeySize c) - 1) (cstr k)) s2 = Some (Some d, s4)"
proof -
  from session_after_inserts[OF assms(1,2,3)] obtain s1 s2 t where
    s: "open_bt c path Write s0 = (True, s1)" "insert_all c kds s1 = Some (Inr s2)"
       "winv c path s2 t" "tinv c t" "ents t = (\<lambda>kd. mk_record c (fst kd) (snd kd)) ` set kds"
    by blast
  obtain f where g: "good c path f (numNodes' s2) s2" and rp: "rep c f t (root' s2)"
    using s(3) unfolding winv_def by blast
  have b: "bst None None t" using s(4) by (simp add: tinv_def)
  have len: "\<forall>kd \<in> set kds. length (snd kd) = unat (DataSize c)"
    using assms(4) by (simp add: list_all_iff)
  let ?k' = "take (unat (KeySize c) - 1) (cstr k)"
  let ?r = "mk_record c k d"
  have "?r \<in> ents t" unfolding s(5) using assms(5) by force
  then have "?r \<in> set (stored_records f)" by (rule rep_stored[OF rp])
  moreover have "cstr (key ?r) = ?k'" using key_mk_record[of c k d] stored_key_take(1)[OF assms(1)] by simp
  ultimately have st: "?k' \<in> set (map (\<lambda>r. cstr (key r)) (stored_records f))" by force
  have dm: "distinct (map fst (map (\<lambda>kd. (stored_key c (fst kd), snd kd)) kds))"
    using assms(3) by (simp add: comp_def)
  have "(stored_key c k, d) \<in> set (map (\<lambda>kd. (stored_key c (fst kd), snd kd)) kds)"
    using assms(5) by force
  then have mo: "map_of (map (\<lambda>kd. (stored_key c (fst kd), snd kd)) kds) (stored_key c k) = Some d"
    by (rule map_of_is_SomeI[OF dm])
  have lk: "\<And>x. stored_key c x = stored_key c k \<Longrightarrow> \<exists>s3. retrieve c x s2 = Some (Some d, s3)"
  proof -
    fix x assume x: "stored_key c x = stored_key c k"
    let ?sk = "strncpy (memset0 (unat (KeySize c))) x (unat (KeySize c - 1))"
    from retrieve_in_session[OF assms(1) s(3), of x] obtain cn where
      q: "retrieve c x s2 = Some (map_option (payload c) (alook t ?sk), s2\<lparr>currentNode' := cn\<rparr>)"
      by blast
    have "map_option (payload c) (alook t ?sk) =
          map_of (map (\<lambda>kd. (stored_key c (fst kd), snd kd)) kds) (stored_key c x)"
      using lookup_result[OF b s(5) len, of ?sk] by (simp add: stored_key_def)
    then show "\<exists>s3. retrieve c x s2 = Some (Some d, s3)" using q mo x by simp
  qed
  from lk[of k] obtain s3 where r1: "retrieve c k s2 = Some (Some d, s3)" by blast
  from lk[OF stored_key_take(2)[OF assms(1)]] obtain s4 where
    r2: "retrieve c ?k' s2 = Some (Some d, s4)" by blast
  show ?thesis using s(1,2) goodD(2)[OF g] st r1 r2 by blast
qed

theorem long_key_truncated_witness:
  "\<exists>s1 s2 f s3 s4. open_bt cfg_small ''f'' Write s0_small = (True, s1) \<and>
     insert_all cfg_small kds_small s1 = Some (Inr s2) \<and>
     disk s2 ''f'' = Some f \<and>
     ''dlo'' \<in> set (map (\<lambda>r. cstr (key r)) (stored_records f)) \<and>
     retrieve cfg_small ''dlong'' s2 = Some (Some ''w'', s3) \<and>
     retrieve cfg_small ''dlo'' s2 = Some (Some ''w'', s4)"
  using long_key_truncated [of cfg_small s0_small "''f''" kds_small "''dlong''" "''w''"]
  by (simp add: wf_cfg_small small_hyps) (simp add: kds_small_def cfg_small_def cstr_def)


lemma Node0_small:
  "Node0 cfg_small = \<lparr>count = 0, records = [Record0 cfg_small, Record0 cfg_small],
                       branches = [NilPtr, NilPtr, NilPtr]\<rparr>"
proof -
  have u: "unat (MaxKeys cfg_small) = 2" "unat (Order cfg_small) = 3"
    by (simp_all add: MaxKeys_def Order_small)
  show ?thesis unfolding Node0_def u by (simp add: numeral_2_eq_2 numeral_3_eq_3)
qed











text \<open>
  A descent during which a read fails is outside the statement above. \<open>retrieve\<close>
  does not look at the result of \<open>readNode\<close> (line 280) and goes on with the node
  left in the buffer. On \<open>disk_trunc\<close> that is the header, whose count is 0 and whose
  branch 0 (the item count 1) is the root again, and the lookup never returns.
\<close>

lemma readNode_fail: "\<not> fst (readNode c q s) \<Longrightarrow> snd (readNode c q s) = s\<lparr>fail' := True\<rparr>"
  by (auto simp: readNode_def split: option.splits if_splits)

lemma readNode_failed [simp]: "fail' s \<Longrightarrow> \<not> fst (readNode c q s)"
  by (simp add: readNode_def)

lemma retrieve_loop_failed_read:
  assumes r: "retrieve_loop c k q s = Some y"
  shows "\<not> (q \<noteq> NilPtr \<and> \<not> fst (readNode c q s) \<and> count (currentNode' s) = 0 \<and>
            branches (currentNode' s) ! 0 = q)"
proof (rule retrieve_loop.raw_induct[where P = "\<lambda>c k q s y.
          \<not> (q \<noteq> NilPtr \<and> \<not> fst (readNode c q s) \<and> count (currentNode' s) = 0 \<and>
            branches (currentNode' s) ! 0 = q)", OF _ r])
  fix rl :: "config \<Rightarrow> string \<Rightarrow> int \<Rightarrow> BTree \<Rightarrow> (string option \<times> BTree) option"
  fix c k q and s :: BTree and y
  assume ih: "\<And>c k q s y. rl c k q s = Some y \<Longrightarrow>
          \<not> (q \<noteq> NilPtr \<and> \<not> fst (readNode c q s) \<and> count (currentNode' s) = 0 \<and>
            branches (currentNode' s) ! 0 = q)"
  assume body: "(if q \<noteq> NilPtr
      then let s = snd (readNode c q s);
               (found, location) = searchNode (currentNode' s) k
           in if found
              then Some (Some (take (unat (DataSize c)) (data (records (currentNode' s) ! nat location))), s)
              else rl c k (branches (currentNode' s) ! nat (location + 1)) s
      else Some (None, s)) = Some y"
  show "\<not> (q \<noteq> NilPtr \<and> \<not> fst (readNode c q s) \<and> count (currentNode' s) = 0 \<and>
            branches (currentNode' s) ! 0 = q)"
  proof
    assume a: "q \<noteq> NilPtr \<and> \<not> fst (readNode c q s) \<and> count (currentNode' s) = 0 \<and>
            branches (currentNode' s) ! 0 = q"
    define s1 :: BTree where "s1 = s\<lparr>fail' := True\<rparr>"
    have rd: "snd (readNode c q s) = s1" unfolding s1_def using a by (intro readNode_fail) simp
    have sn: "searchNode (currentNode' s1) k = (False, - 1)" using a by (simp add: s1_def searchNode_def)
    have "rl c k q s1 = Some y"
      using body rd sn a by (simp add: Let_def s1_def)
    from ih[OF this] show False using a by (simp add: s1_def)
  qed
qed

lemma open_trunc:
  "open_bt cfg_small ''f'' Read (BTree0 cfg_small disk_trunc (\<lambda>p. True)) = (True, s_trunc)"
  "isOpen' s_trunc" "root' s_trunc = 1" "currentNode' s_trunc = hdr_one"
  "\<not> fst (readNode cfg_small 1 s_trunc)"
  by (simp_all add: s_trunc_def open_bt_def close_bt_def BTree0_def disk_trunc_def readNode_def
      file_read_def file_length_def ANS_small Let_def hdr_one_def Node0_small)

lemma lookup_truncated_never_returns:
  "open_bt cfg_small ''f'' Read (BTree0 cfg_small disk_trunc (\<lambda>p. True)) = (True, s_trunc) \<and>
   retrieve cfg_small ''k'' s_trunc = None \<and> contains cfg_small ''k'' s_trunc = None"
proof -
  let ?sk = "strncpy (memset0 (unat (KeySize cfg_small))) ''k'' (unat (KeySize cfg_small - 1))"
  have c: "count (currentNode' s_trunc) = 0" "branches (currentNode' s_trunc) ! 0 = 1"
    by (simp_all add: open_trunc hdr_one_def Node0_small)
  have "retrieve_loop cfg_small ?sk 1 s_trunc = None"
  proof (cases "retrieve_loop cfg_small ?sk 1 s_trunc")
    case None then show ?thesis .
  next
    case (Some y)
    from retrieve_loop_failed_read[OF Some] show ?thesis using open_trunc(5) c by simp
  qed
  then have r: "retrieve cfg_small ''k'' s_trunc = None"
    using open_trunc by (simp add: retrieve_def Let_def)
  then have "contains cfg_small ''k'' s_trunc = None" by (simp add: contains_def)
  then show ?thesis using r open_trunc(1) by simp
qed

section \<open>The binary-search index: claim C8\<close>

lemma buffer_addRecords:
  "buffer' (addRecords kvs s) = buffer' s @ map (\<lambda>kv. ProductRecord2 (fst kv) (snd kv)) kvs"
  by (induction kvs arbitrary: s) (auto simp: addRecordP_def)

lemma addRecords_fields [simp]:
  "pcan_create (addRecords kvs s) = pcan_create s" "pdisk (addRecords kvs s) = pdisk s"
  by (induction kvs arbitrary: s) (auto simp: addRecordP_def)

lemma pkey_ProductRecord2 [simp]:
  "pkey (ProductRecord2 ident k) = stored_id ident" "nodeKey (ProductRecord2 ident k) = k"
  by (simp_all add: pkey_def ProductRecord2_def stored_id_def)

lemma index_read_ok:
  assumes "indexFile' s = Some p" "pdisk s p = Some f" "\<not> indexFail' s" "i < length (recs f)"
  shows "index_read (headerSize + i * recordSize) s = (Some (recs f ! i), s)"
  using assms by (simp add: index_read_def recordSize_def MAX_PRODUCT_ID_LEN_def)

lemma binarySearch_loop_stop:
  "\<not> left < right \<Longrightarrow> binarySearch_loop t left right s = (None, s)"
  by (subst binarySearch_loop.simps) simp

lemma binarySearch_loop_step:
  "left < right \<Longrightarrow>
   index_read (headerSize + (left + (right - left) div 2) * recordSize) s = (Some r, s) \<Longrightarrow>
   binarySearch_loop t left right s =
     (if strcmp t (productId r) = 0 then (Some (nodeKey r), s)
      else if strcmp t (productId r) < 0 then binarySearch_loop t left (left + (right - left) div 2) s
      else binarySearch_loop t (left + (right - left) div 2 + 1) right s)"
  by (subst binarySearch_loop.simps) (simp add: Let_def)

lemma binarySearch_loop_spec:
  assumes st: "indexFile' s = Some p" "pdisk s p = Some f" "\<not> indexFail' s"
    and srt: "sorted (map pkey (recs f))" and dst: "distinct (map pkey (recs f))"
  shows "left \<le> right \<Longrightarrow> right \<le> length (recs f) \<Longrightarrow>
    (\<forall>i < left. pkey (recs f ! i) < cstr t) \<Longrightarrow>
    (\<forall>i. right \<le> i \<and> i < length (recs f) \<longrightarrow> cstr t < pkey (recs f ! i)) \<Longrightarrow>
    binarySearch_loop t left right s =
      (map_of (map (\<lambda>r. (pkey r, nodeKey r)) (recs f)) (cstr t), s)"
proof (induction "right - left" arbitrary: left right rule: less_induct)
  case less
  let ?rs = "recs f"
  let ?mo = "map_of (map (\<lambda>r. (pkey r, nodeKey r)) ?rs) (cstr t)"
  have mono: "\<And>i j. i \<le> j \<Longrightarrow> j < length ?rs \<Longrightarrow> pkey (?rs ! i) \<le> pkey (?rs ! j)"
    using srt by (simp add: sorted_iff_nth_mono)
  show ?case
  proof (cases "left < right")
    case False
    have ne: "\<And>i. i < length ?rs \<Longrightarrow> pkey (?rs ! i) \<noteq> cstr t"
    proof -
      fix i assume i: "i < length ?rs"
      have "i < left \<or> right \<le> i" using False less.prems(1) by linarith
      then show "pkey (?rs ! i) \<noteq> cstr t" using less.prems(3,4) i by auto
    qed
    have "cstr t \<notin> fst ` set (map (\<lambda>r. (pkey r, nodeKey r)) ?rs)"
    proof
      assume "cstr t \<in> fst ` set (map (\<lambda>r. (pkey r, nodeKey r)) ?rs)"
      then have "cstr t \<in> pkey ` set ?rs" by (simp add: image_image)
      then obtain i where "i < length ?rs" "pkey (?rs ! i) = cstr t"
        by (auto simp: in_set_conv_nth)
      then show False using ne by blast
    qed
    then have "?mo = None" unfolding map_of_eq_None_iff .
    then show ?thesis using binarySearch_loop_stop[OF False] by simp
  next
    case True
    define mid where "mid = left + (right - left) div 2"
    have m: "left \<le> mid" "mid < right" "mid < length ?rs" using True less.prems(2) by (auto simp: mid_def)
    have rd: "index_read (headerSize + mid * recordSize) s = (Some (?rs ! mid), s)"
      by (rule index_read_ok[OF st m(3)])
    note step = binarySearch_loop_step[OF True rd[unfolded mid_def], folded mid_def, of t]
    have pk: "cstr (productId (?rs ! mid)) = pkey (?rs ! mid)" by (simp add: pkey_def)
    show ?thesis
    proof (cases "cstr t = pkey (?rs ! mid)")
      case eq: True
      have d: "distinct (map fst (map (\<lambda>r. (pkey r, nodeKey r)) ?rs))" using dst by (simp add: comp_def)
      have "(cstr t, nodeKey (?rs ! mid)) \<in> set (map (\<lambda>r. (pkey r, nodeKey r)) ?rs)"
        using m(3) eq by (auto simp: in_set_conv_nth intro!: exI[of _ mid])
      then have "?mo = Some (nodeKey (?rs ! mid))" by (rule map_of_is_SomeI[OF d])
      then show ?thesis using step eq by (simp add: strcmp_eq pk)
    next
      case ne: False
      show ?thesis
      proof (cases "cstr t < pkey (?rs ! mid)")
        case lt: True
        have a: "\<forall>i. mid \<le> i \<and> i < length ?rs \<longrightarrow> cstr t < pkey (?rs ! i)"
        proof (intro allI impI)
          fix i assume i: "mid \<le> i \<and> i < length ?rs"
          then have "pkey (?rs ! mid) \<le> pkey (?rs ! i)" using mono by simp
          then show "cstr t < pkey (?rs ! i)" using lt by simp
        qed
        have "binarySearch_loop t left mid s = (?mo, s)"
          using m less.prems(3) a by (intro less.hyps) simp_all
        then show ?thesis using step ne lt by (simp add: strcmp_eq strcmp_less pk)
      next
        case ge: False
        then have gt: "pkey (?rs ! mid) < cstr t" using ne by simp
        have a: "\<forall>i < mid + 1. pkey (?rs ! i) < cstr t"
        proof (intro allI impI)
          fix i assume i: "i < mid + 1"
          then have "pkey (?rs ! i) \<le> pkey (?rs ! mid)" using mono[of i mid] m(3) by simp
          then show "pkey (?rs ! i) < cstr t" using gt by simp
        qed
        have "binarySearch_loop t (mid + 1) right s = (?mo, s)"
          using m less.prems(2,4) a by (intro less.hyps) simp_all
        then show ?thesis using step ne ge by (simp add: strcmp_eq strcmp_less pk)
      qed
    qed
  qed
qed

lemma distinct_map_sort_key:
  assumes "distinct (map k xs)"
  shows "distinct (map k (sort_key k xs))"
proof -
  have d: "distinct xs" "inj_on k (set xs)" using assms by (simp_all add: distinct_map)
  show ?thesis using d by (simp add: distinct_map)
qed

lemma map_of_sort_key:
  assumes "distinct (map k xs)"
  shows "map_of (map (\<lambda>r. (k r, v r)) (sort_key k xs)) = map_of (map (\<lambda>r. (k r, v r)) xs)"
proof -
  have d: "distinct xs" "inj_on k (set xs)" using assms by (simp_all add: distinct_map)
  have "distinct (map k (sort_key k xs))" using d by (simp add: distinct_map)
  then have a: "distinct (map fst (map (\<lambda>r. (k r, v r)) (sort_key k xs)))" by (simp add: comp_def)
  have b: "distinct (map fst (map (\<lambda>r. (k r, v r)) xs))" using assms by (simp add: comp_def)
  have "set (map (\<lambda>r. (k r, v r)) (sort_key k xs)) = set (map (\<lambda>r. (k r, v r)) xs)" by simp
  then show ?thesis using map_of_inject_set[OF a b] by simp
qed

lemma buildIndex_ok:
  assumes b: "buffer' s \<noteq> []" and cc: "pcan_create s p"
  shows "buildIndex p s =
    (True, s\<lparr>buffer' := [],
             pdisk := (pdisk s)(p \<mapsto> \<lparr>header = length (buffer' s), recs = sort_key pkey (buffer' s)\<rparr>),
             indexFile' := Some p, indexFail' := False, recordCount' := length (buffer' s),
             indexIsOpen' := True\<rparr>)"
proof -
  have "pkey = (\<lambda>r. cstr (productId r))" by (simp add: pkey_def fun_eq_iff)
  then show ?thesis using b cc
    by (simp add: buildIndex_def openIndex_def closeIndex_def Let_def)
qed

lemma buildIndex_True:
  "buildIndex p s = (True, s1) \<Longrightarrow> buffer' s \<noteq> [] \<and> pcan_create s p"
  by (auto simp add: buildIndex_def Let_def split: if_splits)

text \<open>
  Claim C8. Add records whose stored (truncated) identifiers are pairwise distinct to an
  index with an empty buffer and build the index file successfully. The file then holds
  the count and the records sorted by identifier, and \<open>lookup\<close>, a binary search
  over the records of the file, returns the key added under the stored form of the
  identifier when there is one and \<open>false\<close> (here \<open>None\<close>) otherwise.
\<close>

theorem index_lookup:
  assumes "buffer' s0 = []"
    and "distinct (map (\<lambda>kv. stored_id (fst kv)) kvs)"
    and "buildIndex path (addRecords kvs s0) = (True, s1)"
  shows "lookup ident s1 = (map_of (map (\<lambda>kv. (stored_id (fst kv), snd kv)) kvs) (stored_id ident), s1) \<and>
     (\<exists>f. pdisk s1 path = Some f \<and> header f = length kvs \<and> length (recs f) = length kvs \<and>
          sorted (map (\<lambda>r. cstr (productId r)) (recs f)))"
proof -
  let ?s = "addRecords kvs s0"
  let ?buf = "map (\<lambda>kv. ProductRecord2 (fst kv) (snd kv)) kvs"
  have buf: "buffer' ?s = ?buf" using assms(1) by (simp add: buffer_addRecords)
  note bt = buildIndex_True[OF assms(3)]
  define f where "f = \<lparr>header = length ?buf, recs = sort_key pkey ?buf\<rparr>"
  have s1: "s1 = ?s\<lparr>buffer' := [], pdisk := (pdisk ?s)(path \<mapsto> f),
             indexFile' := Some path, indexFail' := False, recordCount' := length ?buf,
             indexIsOpen' := True\<rparr>"
    using buildIndex_ok[of ?s path] bt assms(3) buf by (simp add: f_def)
  have st: "indexFile' s1 = Some path" "pdisk s1 path = Some f" "\<not> indexFail' s1"
    "indexIsOpen' s1" "recordCount' s1 = length (recs f)" "recordCount' s1 \<noteq> 0"
    using bt buf by (simp_all add: s1 f_def)
  have km: "map pkey ?buf = map (\<lambda>kv. stored_id (fst kv)) kvs" by (simp add: comp_def)
  have dk: "distinct (map pkey ?buf)" unfolding km by (rule assms(2))
  have srt: "sorted (map pkey (recs f))" by (simp add: f_def)
  have dst: "distinct (map pkey (recs f))" using distinct_map_sort_key[OF dk] by (simp add: f_def)
  let ?t = "strncpy_s (memset0 MAX_PRODUCT_ID_LEN) MAX_PRODUCT_ID_LEN ident (MAX_PRODUCT_ID_LEN - 1)"
  have lk: "lookup ident s1 = binarySearch_loop ?t 0 (length (recs f)) s1"
    using st(4,5,6) by (simp add: lookup_def binarySearch_def Let_def)
  have e1: "binarySearch_loop ?t 0 (length (recs f)) s1 =
      (map_of (map (\<lambda>r. (pkey r, nodeKey r)) (recs f)) (cstr ?t), s1)"
    by (rule binarySearch_loop_spec[OF st(1,2,3) srt dst]) auto
  have e3: "map (\<lambda>r. (pkey r, nodeKey r)) ?buf = map (\<lambda>kv. (stored_id (fst kv), snd kv)) kvs"
    by (simp add: comp_def)
  have "map_of (map (\<lambda>r. (pkey r, nodeKey r)) (recs f)) = map_of (map (\<lambda>r. (pkey r, nodeKey r)) ?buf)"
    unfolding f_def using map_of_sort_key[OF dk, of nodeKey] by simp
  then have e2: "map_of (map (\<lambda>r. (pkey r, nodeKey r)) (recs f)) =
      map_of (map (\<lambda>kv. (stored_id (fst kv), snd kv)) kvs)"
    unfolding e3 .
  have e4: "cstr ?t = stored_id ident" by (simp add: stored_id_def)
  have "lookup ident s1 =
      (map_of (map (\<lambda>kv. (stored_id (fst kv), snd kv)) kvs) (stored_id ident), s1)"
    unfolding lk e1 e2 e4 ..
  moreover have "pdisk s1 path = Some f \<and> header f = length kvs \<and> length (recs f) = length kvs \<and>
          sorted (map (\<lambda>r. cstr (productId r)) (recs f))"
    using st(2) srt by (simp add: f_def pkey_def[abs_def])
  ultimately show ?thesis by blast
qed

lemma stored_id_small:
  "stored_id ''a'' = ''a''" "stored_id ''b'' = ''b''" "stored_id ''c'' = ''c''" "stored_id ''zz'' = ''zz''"
  by (simp_all add: stored_id_def strncpy_s_def cstr_def memset0_def MAX_PRODUCT_ID_LEN_def)

lemma build_small:
  "fst (buildIndex ''p'' (addRecords kvs_small (ProductIndex0 Map.empty (\<lambda>p. True))))"
  by (simp add: kvs_small_def buildIndex_def addRecordP_def ProductIndex0_def openIndex_def
      closeIndex_def Let_def)

theorem index_lookup_witness:
  "lookup ''a'' (snd (buildIndex ''p'' (addRecords kvs_small (ProductIndex0 Map.empty (\<lambda>p. True)))))
     = (Some 1, snd (buildIndex ''p'' (addRecords kvs_small (ProductIndex0 Map.empty (\<lambda>p. True))))) \<and>
   lookup ''zz'' (snd (buildIndex ''p'' (addRecords kvs_small (ProductIndex0 Map.empty (\<lambda>p. True)))))
     = (None, snd (buildIndex ''p'' (addRecords kvs_small (ProductIndex0 Map.empty (\<lambda>p. True)))))"
  using build_small
    index_lookup [of "ProductIndex0 Map.empty (\<lambda>p. True)" kvs_small "''p''"
      "snd (buildIndex ''p'' (addRecords kvs_small (ProductIndex0 Map.empty (\<lambda>p. True))))" "''a''"]
    index_lookup [of "ProductIndex0 Map.empty (\<lambda>p. True)" kvs_small "''p''"
      "snd (buildIndex ''p'' (addRecords kvs_small (ProductIndex0 Map.empty (\<lambda>p. True))))" "''zz''"]
  by (simp add: prod_eq_iff ProductIndex0_def kvs_small_def stored_id_small)

end
